theory Spec2Isabelle
  imports Main "HOL-Library.Word"
begin

unbundle bit_operations_syntax

section \<open>Data model of sudoku.c\<close>

text \<open>
  \<^verbatim>\<open>typedef struct { int grid[N][N]; } Board;\<close> and
  \<^verbatim>\<open>typedef struct { unsigned row[N], col[N], box[N]; } Masks;\<close>.
  A C array of fixed size is a total map from its indices, so each array is a function from
  the index; the program only ever uses indices below \<open>N = 9\<close> (every loop is bounded
  by \<open>N\<close>), and nothing is ever written at another index. Cell values are C \<open>int\<close>s
  that stay within 0..9, modelled as \<open>int\<close>; the masks are C \<open>unsigned\<close>, modelled
  as 32-bit words.
\<close>

abbreviation N :: nat where "N \<equiv> 9"
abbreviation BOX :: nat where "BOX \<equiv> 3"

definition ALL_bits :: "32 word" where
  "ALL_bits = push_bit 9 1 - 1"

record Board =
  grid :: "nat \<Rightarrow> nat \<Rightarrow> int"

record Masks =
  row :: "nat \<Rightarrow> 32 word"
  col :: "nat \<Rightarrow> 32 word"
  box :: "nat \<Rightarrow> 32 word"

definition box_index :: "nat \<Rightarrow> nat \<Rightarrow> nat" where
  "box_index r c = (r div BOX) * BOX + (c div BOX)"

text \<open>\<^verbatim>\<open>__builtin_popcount\<close>: the number of set bits of a 32-bit value.\<close>

definition popcount9 :: "32 word \<Rightarrow> int" where
  "popcount9 x = int (length (filter (bit x) [0..<32]))"

text \<open>\<^verbatim>\<open>__builtin_ctz\<close>: the number of trailing zero bits (C leaves it undefined at 0,
  where this model says 32).\<close>

definition lsb_index :: "32 word \<Rightarrow> int" where
  "lsb_index x = int (length (takeWhile (\<lambda>n. \<not> bit x n) [0..<32]))"

text \<open>\<^verbatim>\<open>1u<<(v-1)\<close>. The program shifts only for \<open>v\<close> in 1..9.\<close>

definition digit_bit :: "int \<Rightarrow> 32 word" where
  "digit_bit v = push_bit (nat (v - 1)) 1"

text \<open>The assignment \<^verbatim>\<open>b->grid[r][c]=v\<close>.\<close>

definition grid_upd :: "Board \<Rightarrow> nat \<Rightarrow> nat \<Rightarrow> int \<Rightarrow> Board" where
  "grid_upd b r c v = b\<lparr>grid := (grid b)(r := (grid b r)(c := v))\<rparr>"

text \<open>The statement sequence
  \<^verbatim>\<open>m->row[r] |= bit; m->col[c] |= bit; m->box[box_index(r,c)] |= bit;\<close>
  of \<open>masks_init\<close> and \<open>apply_set\<close>, and its counterpart with \<^verbatim>\<open>&= ~bit\<close> of
  \<open>apply_clear\<close>.\<close>

definition masks_or :: "Masks \<Rightarrow> nat \<Rightarrow> nat \<Rightarrow> 32 word \<Rightarrow> Masks" where
  "masks_or m r c b =
     m\<lparr>row := (row m)(r := row m r OR b),
       col := (col m)(c := col m c OR b),
       box := (box m)(box_index r c := box m (box_index r c) OR b)\<rparr>"

definition masks_andnot :: "Masks \<Rightarrow> nat \<Rightarrow> nat \<Rightarrow> 32 word \<Rightarrow> Masks" where
  "masks_andnot m r c b =
     m\<lparr>row := (row m)(r := row m r AND NOT b),
       col := (col m)(c := col m c AND NOT b),
       box := (box m)(box_index r c := box m (box_index r c) AND NOT b)\<rparr>"

section \<open>Constraint state\<close>

text \<open>\<open>masks_init\<close>: the first loop zeroes the nine entries of each array, the nested loop
  adds the bit of every filled cell. The first argument is the storage the pointer \<open>m\<close>
  points to.\<close>

definition masks_init :: "Masks \<Rightarrow> Board \<Rightarrow> Masks" where
  "masks_init m b =
     (let m0 = fold (\<lambda>i m. m\<lparr>row := (row m)(i := 0), col := (col m)(i := 0),
                               box := (box m)(i := 0)\<rparr>) [0..<N] m
      in fold (\<lambda>i. fold (\<lambda>j m.
                 let v = grid b i j
                 in if v \<noteq> 0 then masks_or m i j (digit_bit v) else m) [0..<N])
           [0..<N] m0)"

definition used_mask :: "Masks \<Rightarrow> nat \<Rightarrow> nat \<Rightarrow> 32 word" where
  "used_mask m r c = row m r OR col m c OR box m (box_index r c)"

definition candidates_mask :: "Masks \<Rightarrow> nat \<Rightarrow> nat \<Rightarrow> 32 word" where
  "candidates_mask m r c = (NOT (used_mask m r c)) AND ALL_bits"

definition apply_set :: "Board \<Rightarrow> Masks \<Rightarrow> nat \<Rightarrow> nat \<Rightarrow> int \<Rightarrow> Board \<times> Masks" where
  "apply_set b m r c v = (grid_upd b r c v, masks_or m r c (digit_bit v))"

definition apply_clear :: "Board \<Rightarrow> Masks \<Rightarrow> nat \<Rightarrow> nat \<Rightarrow> Board \<times> Masks" where
  "apply_clear b m r c =
     (let v = grid b r c
      in if v = 0 then (b, m)
         else (grid_upd b r c 0, masks_andnot m r c (digit_bit v)))"

text \<open>The storage of a local \<open>Masks\<close> or \<open>Board\<close> before anything is written to it.
  Every reader initialises the entries 0..8 first, so the content chosen here is never read.\<close>

definition fresh_masks :: Masks where
  "fresh_masks = \<lparr>row = (\<lambda>_. 0), col = (\<lambda>_. 0), box = (\<lambda>_. 0)\<rparr>"

definition empty_board :: Board where
  "empty_board = \<lparr>grid = (\<lambda>_ _. 0)\<rparr>"

section \<open>Bit-level facts\<close>

lemma digit_bit_bit: "bit (digit_bit v) n \<longleftrightarrow> n = nat (v - 1) \<and> n < 32"
  by (auto simp: digit_bit_def bit_exp_iff)

lemma bit_or_digit:
  "bit (x OR digit_bit v) n \<longleftrightarrow> bit x n \<or> (n = nat (v - 1) \<and> n < 32)"
  by (simp add: bit_or_iff digit_bit_bit)

lemma bit_andnot_digit:
  "bit (x AND NOT (digit_bit v)) n \<longleftrightarrow> bit x n \<and> n \<noteq> nat (v - 1)"
  by (auto simp: bit_and_iff bit_not_iff digit_bit_bit dest: bit_imp_le_length)

lemma or_andnot_digit:
  "(x OR digit_bit v) AND NOT (digit_bit v) = x \<longleftrightarrow> \<not> (bit x (nat (v - 1)) \<and> nat (v - 1) < 32)"
proof
  assume eq: "(x OR digit_bit v) AND NOT (digit_bit v) = x"
  have "\<not> bit ((x OR digit_bit v) AND NOT (digit_bit v)) (nat (v - 1))"
    by (simp add: bit_andnot_digit)
  with eq show "\<not> (bit x (nat (v - 1)) \<and> nat (v - 1) < 32)" by simp
next
  assume "\<not> (bit x (nat (v - 1)) \<and> nat (v - 1) < 32)"
  then show "(x OR digit_bit v) AND NOT (digit_bit v) = x"
    by (intro bit_eqI) (auto simp: bit_andnot_digit bit_or_digit dest: bit_imp_le_length)
qed

section \<open>Placing and undoing a digit\<close>

lemma grid_upd_same: "grid b r c = v \<Longrightarrow> grid_upd b r c v = b"
  by (auto simp: grid_upd_def)

lemma grid_upd_twice: "grid_upd (grid_upd b r c v) r c w = grid_upd b r c w"
  by (simp add: grid_upd_def)

lemma grid_grid_upd:
  "grid (grid_upd b r c v) r' c' = (if r' = r \<and> c' = c then v else grid b r' c')"
  by (simp add: grid_upd_def)

lemma masks_eq_iff:
  "(m :: Masks) = m' \<longleftrightarrow> row m = row m' \<and> col m = col m' \<and> box m = box m'"
  by (cases m, cases m') auto

lemma masks_or_andnot:
  "masks_andnot (masks_or m r c (digit_bit v)) r c (digit_bit v) = m \<longleftrightarrow>
     \<not> (nat (v - 1) < 32 \<and>
        (bit (row m r) (nat (v - 1)) \<or> bit (col m c) (nat (v - 1))
          \<or> bit (box m (box_index r c)) (nat (v - 1))))"
proof -
  have "masks_andnot (masks_or m r c (digit_bit v)) r c (digit_bit v) = m \<longleftrightarrow>
        (row m r OR digit_bit v) AND NOT (digit_bit v) = row m r \<and>
        (col m c OR digit_bit v) AND NOT (digit_bit v) = col m c \<and>
        (box m (box_index r c) OR digit_bit v) AND NOT (digit_bit v) = box m (box_index r c)"
    by (auto simp: masks_eq_iff masks_or_def masks_andnot_def fun_upd_idem_iff)
  then show ?thesis
    by (simp only: or_andnot_digit) blast
qed

text \<open>
  Claim C7, as the code has it: placing a digit \<open>v\<close> of 1..9 at \<open>(r,c)\<close> and clearing the
  cell at once gives back the board and the three mask arrays, bit for bit, exactly when
  the cell was empty and the bit of \<open>v\<close> was set in none of \<open>row[r]\<close>, \<open>col[c]\<close> and
  \<open>box[box_index(r,c)]\<close> (that is, \<open>v\<close> was a candidate of the empty cell).
\<close>

theorem apply_set_clear_roundtrip:
  assumes "1 \<le> v" and "v \<le> 9"
  shows "(case apply_set b m r c v of (b1, m1) \<Rightarrow> apply_clear b1 m1 r c) = (b, m) \<longleftrightarrow>
           grid b r c = 0 \<and> \<not> bit (row m r) (nat (v - 1)) \<and> \<not> bit (col m c) (nat (v - 1))
             \<and> \<not> bit (box m (box_index r c)) (nat (v - 1))"
proof -
  from assms have v: "v \<noteq> 0" "nat (v - 1) < 32" by auto
  have "(case apply_set b m r c v of (b1, m1) \<Rightarrow> apply_clear b1 m1 r c) =
        (grid_upd b r c 0, masks_andnot (masks_or m r c (digit_bit v)) r c (digit_bit v))"
    using v by (simp add: apply_set_def apply_clear_def grid_grid_upd grid_upd_twice)
  moreover have "grid_upd b r c 0 = b \<longleftrightarrow> grid b r c = 0"
    by (metis grid_upd_same grid_grid_upd)
  ultimately show ?thesis
    using v by (simp add: masks_or_andnot)
qed

theorem apply_set_clear_roundtrip_witness:
  "(case apply_set empty_board fresh_masks 4 7 5 of (b1, m1) \<Rightarrow> apply_clear b1 m1 4 7)
     = (empty_board, fresh_masks)"
  using apply_set_clear_roundtrip [where v = 5 and b = empty_board and m = fresh_masks
      and r = 4 and c = 7]
  by (simp add: empty_board_def fresh_masks_def)

text \<open>
  The claim as the specification words it (for every board-and-masks pair, every cell and
  every digit) fails: on the board whose only clue is a 1 at \<open>(0,1)\<close>, with the masks that
  \<open>masks_init\<close> computes for it, placing 1 at the empty cell \<open>(0,0)\<close> and clearing it again
  erases bit 0 of \<open>row[0]\<close>, which the clue had set.
\<close>

theorem apply_set_clear_roundtrip_counterexample:
  "(case apply_set (grid_upd empty_board 0 1 1)
           (masks_init fresh_masks (grid_upd empty_board 0 1 1)) 0 0 1
    of (b1, m1) \<Rightarrow> apply_clear b1 m1 0 0)
   \<noteq> (grid_upd empty_board 0 1 1, masks_init fresh_masks (grid_upd empty_board 0 1 1))"
proof -
  have "row (masks_init fresh_masks (grid_upd empty_board 0 1 1)) 0 = 1"
    by (simp add: masks_init_def fresh_masks_def empty_board_def grid_upd_def masks_or_def
        digit_bit_def upt_rec)
  then have "bit (row (masks_init fresh_masks (grid_upd empty_board 0 1 1)) 0) (nat (1 - 1))"
    by simp
  then have "masks_andnot (masks_or (masks_init fresh_masks (grid_upd empty_board 0 1 1)) 0 0
                 (digit_bit 1)) 0 0 (digit_bit 1)
             \<noteq> masks_init fresh_masks (grid_upd empty_board 0 1 1)"
    by (simp add: masks_or_andnot)
  then show ?thesis
    by (simp add: apply_set_def apply_clear_def grid_grid_upd)
qed


section \<open>The lowest set bit\<close>

text \<open>The search loops take the candidates in ascending order with
  \<^verbatim>\<open>bit = cand & -cand; cand ^= bit;\<close>. The lemmas of this section say what these two
  expressions compute.\<close>

lemma neg_odd_word: "- (1 + 2 * a) = 1 + 2 * (NOT a :: 'a::len word)"
  by (simp add: not_eq_complement)

lemma lowbit_odd: "(1 + 2 * a) AND - (1 + 2 * a) = (1 :: 'a::len word)"
  unfolding neg_odd_word
  by (rule bit_eqI) (auto simp: bit_and_iff even_bit_succ_iff bit_double_iff bit_not_iff bit_1_iff)

lemma lowbit_word:
  fixes x :: "'a::len word"
  assumes k: "bit x k" and low: "\<forall>j<k. \<not> bit x j"
  shows "x AND - x = push_bit k 1"
proof -
  define y where "y = drop_bit k x"
  have tb: "take_bit k x = 0"
    using low by (intro bit_eqI) (simp add: bit_take_bit_iff)
  have x: "x = push_bit k y"
    using bits_ident[of k x] tb by (simp add: y_def)
  have "odd y" using k by (simp add: y_def bit_iff_odd_drop_bit)
  then obtain a where a: "y = 1 + 2 * a" by (auto elim: oddE simp: ac_simps)
  have yy: "y AND - y = 1" unfolding a by (rule lowbit_odd)
  have "x AND - x = push_bit k y AND push_bit k (- y)"
    by (simp only: x push_bit_minus)
  also have "\<dots> = push_bit k (y AND - y)"
    by (simp only: push_bit_and)
  finally show ?thesis by (simp only: yy)
qed

lemma word_least_bit:
  fixes x :: "'a::len word"
  assumes "x \<noteq> 0"
  shows "\<exists>k. bit x k \<and> (\<forall>j<k. \<not> bit x j)"
proof -
  from assms obtain k0 where "bit x k0"
    by (rule_tac ccontr) (auto intro!: bit_eqI)
  then have "bit x (LEAST k. bit x k) \<and> (\<forall>j<(LEAST k. bit x k). \<not> bit x j)"
    by (metis LeastI not_less_Least)
  then show ?thesis by blast
qed

lemma xor_and_eq: "x XOR (x AND y) = x AND NOT (y :: 'a::len word)"
  by (rule bit_eqI) (auto simp: bit_xor_iff bit_and_iff bit_not_iff dest: bit_imp_le_length)

lemma xor_lowbit_less:
  fixes cand :: "'a::len word"
  assumes nz: "cand \<noteq> 0"
  shows "unat (cand XOR (cand AND - cand)) < unat cand"
proof -
  from word_least_bit [OF nz] obtain k where k: "bit cand k" "\<forall>j<k. \<not> bit cand j"
    by blast
  have lk: "cand AND - cand = push_bit k 1" using k by (rule lowbit_word)
  have le: "cand AND NOT (- cand) \<le> cand"
    by (rule word_and_le2)
  have "bit (cand AND - cand) k"
    using lk bit_imp_le_length [OF k(1)] by (simp add: bit_exp_iff)
  then have "\<not> bit (cand AND NOT (- cand)) k"
    by (simp add: bit_and_iff bit_not_iff)
  with k(1) have "cand AND NOT (- cand) \<noteq> cand" by metis
  with le have "cand AND NOT (- cand) < cand" by (metis order_less_le)
  then show ?thesis unfolding xor_and_eq word_less_nat_alt .
qed

section \<open>Cell selection and the two searches\<close>

text \<open>
  \<^verbatim>\<open>typedef struct { int r,c; unsigned cand; } Choice;\<close>
  \<open>find_best_cell\<close> returns \<open>false\<close> or fills the \<open>Choice\<close> its caller passed: here it
  returns a \<open>Choice option\<close>. Its locals \<open>bestR\<close>, \<open>bestC\<close> and \<open>bestMask\<close> are only
  ever assigned together, and \<open>bestR == -1\<close> says that they have not been assigned: they
  are the \<open>Choice option\<close> that \<open>best_scan\<close> carries, \<open>None\<close> for \<open>bestR == -1\<close>. The two
  nested loops visit the cells in row-major order, which is the list \<open>cells\<close>; leaving the
  scan (\<^verbatim>\<open>return false\<close>, \<^verbatim>\<open>goto done\<close>) is a branch without a recursive call.
\<close>

record Choice =
  ch_r :: nat
  ch_c :: nat
  ch_cand :: "32 word"

definition cells :: "(nat \<times> nat) list" where
  "cells = List.product [0..<N] [0..<N]"

fun best_scan :: "Board \<Rightarrow> Masks \<Rightarrow> (nat \<times> nat) list \<Rightarrow> Choice option \<Rightarrow> int \<Rightarrow> Choice option" where
  "best_scan b m [] best bestCount = best"
| "best_scan b m ((r, c) # rest) best bestCount =
     (if grid b r c \<noteq> 0 then best_scan b m rest best bestCount
      else let cand = candidates_mask m r c;
               cnt = popcount9 cand
           in if cnt = 0 then None
              else if cnt < bestCount
                   then (if cnt = 1 then Some \<lparr>ch_r = r, ch_c = c, ch_cand = cand\<rparr>
                         else best_scan b m rest (Some \<lparr>ch_r = r, ch_c = c, ch_cand = cand\<rparr>) cnt)
                   else best_scan b m rest best bestCount)"

definition find_best_cell :: "Board \<Rightarrow> Masks \<Rightarrow> Choice option" where
  "find_best_cell b m = best_scan b m cells None 10"

text \<open>The test at the head of \<open>count_rec\<close> and \<open>solve_rec\<close>: is some cell empty?\<close>

definition any_empty :: "Board \<Rightarrow> bool" where
  "any_empty bb = list_ex (\<lambda>r. list_ex (\<lambda>c. grid bb r c = 0) [0..<N]) [0..<N]"

text \<open>
  \<open>count_rec\<close>, with its \<^verbatim>\<open>while(cand)\<close> loop as \<open>count_loop\<close>. Both run on the caller's
  board and masks through pointers, so the model passes the pair in and returns it. The
  local \<open>bit\<close> of the source is \<open>lowbit\<close> here. The counter stays between 0 and \<open>lim\<close>
  when \<open>lim\<close> is positive, so no \<open>int\<close> overflows.
\<close>

function count_rec :: "Board \<Rightarrow> Masks \<Rightarrow> int \<Rightarrow> int \<times> Board \<times> Masks"
  and count_loop :: "Board \<Rightarrow> Masks \<Rightarrow> Choice \<Rightarrow> 32 word \<Rightarrow> int \<Rightarrow> int \<Rightarrow> int \<times> Board \<times> Masks"
where
  "count_rec bb mm lim =
     (if \<not> any_empty bb then (1, bb, mm)
      else case find_best_cell bb mm of
             None \<Rightarrow> (0, bb, mm)
           | Some ch \<Rightarrow> count_loop bb mm ch (ch_cand ch) lim 0)"
| "count_loop bb mm ch cand lim tot =
     (if cand = 0 then (tot, bb, mm)
      else let lowbit = cand AND - cand;
               cand' = cand XOR lowbit;
               v = lsb_index lowbit + 1;
               (bb1, mm1) = apply_set bb mm (ch_r ch) (ch_c ch) v;
               (n, bb2, mm2) = count_rec bb1 mm1 (lim - tot);
               tot' = tot + n;
               (bb3, mm3) = apply_clear bb2 mm2 (ch_r ch) (ch_c ch)
           in if tot' \<ge> lim then (tot', bb3, mm3)
              else count_loop bb3 mm3 ch cand' lim tot')"
  by pat_completeness auto



definition empty_count :: "Board \<Rightarrow> nat" where
  "empty_count b = length (filter (\<lambda>(r, c). grid b r c = 0) cells)"

lemma distinct_cells: "distinct cells"
  by (simp add: cells_def distinct_product)

lemma set_cells: "set cells = {(r, c). r < N \<and> c < N}"
  by (auto simp: cells_def)

lemma length_cells: "length cells = 81"
  by (simp add: cells_def)

lemma empty_count_le: "empty_count b \<le> 81"
  unfolding empty_count_def using length_filter_le [of _ cells] by (simp add: length_cells)

lemma empty_count_card:
  "empty_count b = card {(r, c). r < N \<and> c < N \<and> grid b r c = 0}"
proof -
  have "empty_count b = card {x \<in> set cells. (\<lambda>(r, c). grid b r c = 0) x}"
    unfolding empty_count_def
    by (simp add: distinct_length_filter [OF distinct_cells] Int_def conj_commute)
  also have "{x \<in> set cells. (\<lambda>(r, c). grid b r c = 0) x} = {(r, c). r < N \<and> c < N \<and> grid b r c = 0}"
    by (auto simp: set_cells)
  finally show ?thesis .
qed

lemma empty_count_fill:
  assumes "r < N" "c < N" "grid b r c = 0" "v \<noteq> 0"
  shows "Suc (empty_count (grid_upd b r c v)) = empty_count b"
proof -
  let ?A = "{(r, c). r < N \<and> c < N \<and> grid b r c = 0}"
  have fin: "finite ?A"
    by (rule finite_subset [of _ "{..<N} \<times> {..<N}"]) auto
  have "{(r', c'). r' < N \<and> c' < N \<and> grid (grid_upd b r c v) r' c' = 0} = ?A - {(r, c)}"
    using assms by (auto simp: grid_grid_upd)
  then have "empty_count (grid_upd b r c v) = card (?A - {(r, c)})"
    by (simp add: empty_count_card)
  moreover have "(r, c) \<in> ?A" using assms by simp
  ultimately show ?thesis
    using fin card_Suc_Diff1 [of ?A "(r, c)"] by (simp add: empty_count_card)
qed

lemma empty_count_nonzero:
  assumes "v \<noteq> 0" "w \<noteq> 0"
  shows "empty_count (grid_upd b r c v) = empty_count (grid_upd b r c w)"
  using assms by (simp add: empty_count_card grid_grid_upd)

lemma best_scan_Some:
  "best_scan b m cs best bc = Some ch \<Longrightarrow>
     best = Some ch \<or>
     ((ch_r ch, ch_c ch) \<in> set cs \<and> grid b (ch_r ch) (ch_c ch) = 0
       \<and> ch_cand ch = candidates_mask m (ch_r ch) (ch_c ch)
       \<and> popcount9 (ch_cand ch) \<noteq> 0)"
proof (induction b m cs best bc rule: best_scan.induct)
  case (1 b m best bestCount)
  then show ?case by simp
next
  case (2 b m r c rest best bestCount)
  then show ?case
    by (fastforce simp: Let_def split: if_splits)
qed

lemma find_best_cell_Some:
  assumes "find_best_cell b m = Some ch"
  shows "ch_r ch < N" "ch_c ch < N" "grid b (ch_r ch) (ch_c ch) = 0"
    "ch_cand ch = candidates_mask m (ch_r ch) (ch_c ch)" "popcount9 (ch_cand ch) \<noteq> 0"
  using best_scan_Some [OF assms [unfolded find_best_cell_def]]
  by (auto simp: set_cells)

lemma lsb_index_nonneg: "lsb_index x + 1 \<noteq> 0"
  by (simp add: lsb_index_def)

lemma count_board_dom:
  "count_rec_count_loop_dom (Inl (bb, mm, lim)) \<Longrightarrow> fst (snd (count_rec bb mm lim)) = bb"
  "count_rec_count_loop_dom (Inr (bb, mm, ch, cand, lim, tot)) \<Longrightarrow>
     fst (snd (count_loop bb mm ch cand lim tot)) =
       (if cand = 0 then bb else grid_upd bb (ch_r ch) (ch_c ch) 0)"
proof (induct rule: count_rec_count_loop.pinduct)
  case (1 bb mm lim)
  show ?case
  proof (cases "any_empty bb")
    case False
    then show ?thesis using 1(1) by (simp add: count_rec.psimps)
  next
    case True
    show ?thesis
    proof (cases "find_best_cell bb mm")
      case None
      then show ?thesis using 1(1) True by (simp add: count_rec.psimps)
    next
      case (Some ch)
      have "grid_upd bb (ch_r ch) (ch_c ch) 0 = bb"
        using find_best_cell_Some(3) [OF Some] by (rule grid_upd_same)
      then show ?thesis
        using 1(1) True Some 1(2) [of ch] by (simp add: count_rec.psimps)
    qed
  qed
next
  case (2 bb mm ch cand lim tot)
  show ?case
  proof (cases "cand = 0")
    case True
    then show ?thesis using 2(1) by (simp add: count_loop.psimps)
  next
    case False
    define v where "v = lsb_index (cand AND - cand) + 1"
    define bb1 where "bb1 = grid_upd bb (ch_r ch) (ch_c ch) v"
    define mm1 where "mm1 = masks_or mm (ch_r ch) (ch_c ch) (digit_bit v)"
    obtain n bb2 mm2 where res: "count_rec bb1 mm1 (lim - tot) = (n, bb2, mm2)"
      by (cases "count_rec bb1 mm1 (lim - tot)") auto
    have v: "v \<noteq> 0" unfolding v_def by (rule lsb_index_nonneg)
    have e1: "(bb1, mm1) = apply_set bb mm (ch_r ch) (ch_c ch) (lsb_index (cand AND - cand) + 1)"
      by (simp add: apply_set_def bb1_def mm1_def v_def)
    have "fst (snd (count_rec bb1 mm1 (lim - tot))) = bb1"
      by (rule 2(2) [OF False refl refl refl refl e1])
    then have bb2: "bb2 = bb1" using res by simp
    obtain bb3 mm3 where clr: "apply_clear bb2 mm2 (ch_r ch) (ch_c ch) = (bb3, mm3)"
      by (cases "apply_clear bb2 mm2 (ch_r ch) (ch_c ch)") auto
    have bb3: "bb3 = grid_upd bb (ch_r ch) (ch_c ch) 0"
      using clr v by (simp add: apply_clear_def bb2 bb1_def grid_grid_upd grid_upd_twice)
    show ?thesis
    proof (cases "lim \<le> tot + n")
      case True
      then show ?thesis
        using 2(1) False res clr bb3
        by (simp add: count_loop.psimps apply_set_def Let_def bb1_def [symmetric]
            mm1_def [symmetric] v_def [symmetric])
    next
      case nle: False
      have "fst (snd (count_loop bb3 mm3 ch (cand XOR (cand AND - cand)) lim (tot + n))) =
            (if cand XOR (cand AND - cand) = 0 then bb3 else grid_upd bb3 (ch_r ch) (ch_c ch) 0)"
        by (rule 2(3) [OF False refl refl refl refl e1 refl res [symmetric] refl refl refl
              clr [symmetric] nle])
      then show ?thesis
        using 2(1) False res clr bb3 nle
        by (simp add: count_loop.psimps apply_set_def Let_def bb1_def [symmetric]
            mm1_def [symmetric] v_def [symmetric] grid_upd_twice)
    qed
  qed
qed


lemma count_rec_total: "All count_rec_count_loop_dom"
proof (relation "(\<lambda>x. case x of Inl (bb, mm, lim) \<Rightarrow> empty_count bb
                      | Inr (bb, mm, ch, cand, lim, tot) \<Rightarrow>
                          empty_count (grid_upd bb (ch_r ch) (ch_c ch) 1))
                 <*mlex*> measure (\<lambda>x. case x of Inl _ \<Rightarrow> 0
                      | Inr (bb, mm, ch, cand, lim, tot) \<Rightarrow> Suc (unat cand))", goal_cases)
  case 1
  show ?case by (simp add: wf_mlex)
next
  case (2 bb mm lim ch)
  have "Suc (empty_count (grid_upd bb (ch_r ch) (ch_c ch) 1)) = empty_count bb"
    using find_best_cell_Some(1-3) [OF 2(2)] by (intro empty_count_fill) simp_all
  then show ?case by (simp add: mlex_less)
next
  case (3 bb mm ch cand lim tot x xa xb xc xd y)
  have "xd = grid_upd bb (ch_r ch) (ch_c ch) xb"
    using 3 by (simp add: apply_set_def)
  moreover have "xb \<noteq> 0" unfolding 3 by (rule lsb_index_nonneg)
  ultimately have "empty_count xd = empty_count (grid_upd bb (ch_r ch) (ch_c ch) 1)"
    using empty_count_nonzero [of xb 1] by simp
  then show ?case by (simp add: mlex_iff)
next
  case (4 bb mm ch cand lim tot x xa xb xc xd y xe xf ya xg yb xh xi xj yc)
  have xb: "xb \<noteq> 0" unfolding 4 by (rule lsb_index_nonneg)
  have xd: "xd = grid_upd bb (ch_r ch) (ch_c ch) xb"
    using 4 by (simp add: apply_set_def)
  have "fst (snd (count_rec xd y (lim - tot))) = xd"
    using 4 by (intro count_board_dom(1)) simp
  then have "xg = xd" using 4(7,8,9) by (metis fst_conv snd_conv)
  then have "xj = grid_upd bb (ch_r ch) (ch_c ch) 0"
    using 4(11,12) xb by (simp add: apply_clear_def xd grid_grid_upd grid_upd_twice)
  then have "empty_count (grid_upd xj (ch_r ch) (ch_c ch) 1)
      = empty_count (grid_upd bb (ch_r ch) (ch_c ch) 1)"
    by (simp add: grid_upd_twice)
  moreover have "unat xa < unat cand"
    unfolding 4 using 4(1) by (rule xor_lowbit_less)
  ultimately show ?case by (simp add: mlex_iff)
qed



termination count_rec
  by (rule count_rec_total)

text \<open>\<open>solve_rec\<close>, with its \<^verbatim>\<open>while(cand)\<close> loop as \<open>solve_loop\<close>.\<close>

function solve_rec :: "Board \<Rightarrow> Masks \<Rightarrow> bool \<times> Board \<times> Masks"
  and solve_loop :: "Board \<Rightarrow> Masks \<Rightarrow> Choice \<Rightarrow> 32 word \<Rightarrow> bool \<times> Board \<times> Masks"
where
  "solve_rec bb mm =
     (if \<not> any_empty bb then (True, bb, mm)
      else case find_best_cell bb mm of
             None \<Rightarrow> (False, bb, mm)
           | Some ch \<Rightarrow> solve_loop bb mm ch (ch_cand ch))"
| "solve_loop bb mm ch cand =
     (if cand = 0 then (False, bb, mm)
      else let lowbit = cand AND - cand;
               cand' = cand XOR lowbit;
               v = lsb_index lowbit + 1;
               (bb1, mm1) = apply_set bb mm (ch_r ch) (ch_c ch) v;
               (ok, bb2, mm2) = solve_rec bb1 mm1
           in if ok then (True, bb2, mm2)
              else let (bb3, mm3) = apply_clear bb2 mm2 (ch_r ch) (ch_c ch)
                   in solve_loop bb3 mm3 ch cand')"
  by pat_completeness auto

lemma solve_board_dom:
  "solve_rec_solve_loop_dom (Inl (bb, mm)) \<Longrightarrow>
     \<not> fst (solve_rec bb mm) \<Longrightarrow> fst (snd (solve_rec bb mm)) = bb"
  "solve_rec_solve_loop_dom (Inr (bb, mm, ch, cand)) \<Longrightarrow>
     \<not> fst (solve_loop bb mm ch cand) \<Longrightarrow>
     fst (snd (solve_loop bb mm ch cand)) =
       (if cand = 0 then bb else grid_upd bb (ch_r ch) (ch_c ch) 0)"
proof (induct rule: solve_rec_solve_loop.pinduct)
  case (1 bb mm)
  show ?case
  proof (cases "any_empty bb")
    case False
    then show ?thesis using 1(1) by (simp add: solve_rec.psimps)
  next
    case True
    show ?thesis
    proof (cases "find_best_cell bb mm")
      case None
      then show ?thesis using 1(1) True by (simp add: solve_rec.psimps)
    next
      case (Some ch)
      have "grid_upd bb (ch_r ch) (ch_c ch) 0 = bb"
        using find_best_cell_Some(3) [OF Some] by (rule grid_upd_same)
      then show ?thesis
        using 1(1) True Some 1(2) [of ch] 1(3) by (simp add: solve_rec.psimps)
    qed
  qed
next
  case (2 bb mm ch cand)
  show ?case
  proof (cases "cand = 0")
    case True
    then show ?thesis using 2(1) by (simp add: solve_loop.psimps)
  next
    case False
    define v where "v = lsb_index (cand AND - cand) + 1"
    define bb1 where "bb1 = grid_upd bb (ch_r ch) (ch_c ch) v"
    define mm1 where "mm1 = masks_or mm (ch_r ch) (ch_c ch) (digit_bit v)"
    obtain ok bb2 mm2 where res: "solve_rec bb1 mm1 = (ok, bb2, mm2)"
      by (cases "solve_rec bb1 mm1") auto
    obtain bb3 mm3 where clr: "apply_clear bb2 mm2 (ch_r ch) (ch_c ch) = (bb3, mm3)"
      by (cases "apply_clear bb2 mm2 (ch_r ch) (ch_c ch)") auto
    have v: "v \<noteq> 0" unfolding v_def by (rule lsb_index_nonneg)
    have e1: "(bb1, mm1) = apply_set bb mm (ch_r ch) (ch_c ch) (lsb_index (cand AND - cand) + 1)"
      by (simp add: apply_set_def bb1_def mm1_def v_def)
    have unf: "solve_loop bb mm ch cand =
        (if ok then (True, bb2, mm2) else solve_loop bb3 mm3 ch (cand XOR (cand AND - cand)))"
      using 2(1) False res clr
      by (simp add: solve_loop.psimps apply_set_def Let_def bb1_def [symmetric]
          mm1_def [symmetric] v_def [symmetric])
    with 2(4) have nok: "\<not> ok" by (auto split: if_splits)
    have "fst (snd (solve_rec bb1 mm1)) = bb1"
      using 2(2) [OF False refl refl refl refl e1] res nok by simp
    then have bb2: "bb2 = bb1" using res by simp
    have bb3: "bb3 = grid_upd bb (ch_r ch) (ch_c ch) 0"
      using clr v by (simp add: apply_clear_def bb2 bb1_def grid_grid_upd grid_upd_twice)
    have "fst (snd (solve_loop bb3 mm3 ch (cand XOR (cand AND - cand)))) =
          (if cand XOR (cand AND - cand) = 0 then bb3 else grid_upd bb3 (ch_r ch) (ch_c ch) 0)"
      using 2(3) [OF False refl refl refl refl e1 refl res [symmetric] refl nok refl
          clr [symmetric]] 2(4) unf nok by simp
    then show ?thesis
      using unf nok False bb3 by (simp add: grid_upd_twice)
  qed
qed

lemma solve_rec_total: "All solve_rec_solve_loop_dom"
proof (relation "(\<lambda>x. case x of Inl (bb, mm) \<Rightarrow> empty_count bb
                      | Inr (bb, mm, ch, cand) \<Rightarrow>
                          empty_count (grid_upd bb (ch_r ch) (ch_c ch) 1))
                 <*mlex*> measure (\<lambda>x. case x of Inl _ \<Rightarrow> 0
                      | Inr (bb, mm, ch, cand) \<Rightarrow> Suc (unat cand))", goal_cases)
  case 1
  show ?case by (simp add: wf_mlex)
next
  case (2 bb mm ch)
  have "Suc (empty_count (grid_upd bb (ch_r ch) (ch_c ch) 1)) = empty_count bb"
    using find_best_cell_Some(1-3) [OF 2(2)] by (intro empty_count_fill) simp_all
  then show ?case by (simp add: mlex_less)
next
  case (3 bb mm ch cand x xa xb xc xd y)
  have "xd = grid_upd bb (ch_r ch) (ch_c ch) xb"
    using 3 by (simp add: apply_set_def)
  moreover have "xb \<noteq> 0" unfolding 3 by (rule lsb_index_nonneg)
  ultimately have "empty_count xd = empty_count (grid_upd bb (ch_r ch) (ch_c ch) 1)"
    using empty_count_nonzero [of xb 1] by simp
  then show ?case by (simp add: mlex_iff)
next
  case (4 bb mm ch cand x xa xb xc xd y xe xf ya xg yb xh xi yc)
  have xb: "xb \<noteq> 0" unfolding 4 by (rule lsb_index_nonneg)
  have xd: "xd = grid_upd bb (ch_r ch) (ch_c ch) xb"
    using 4 by (simp add: apply_set_def)
  have nok: "\<not> fst (solve_rec xd y)"
    using 4 by (metis fst_conv)
  have "fst (snd (solve_rec xd y)) = xd"
    using 4 nok by (intro solve_board_dom(1)) simp_all
  then have "xg = xd" using 4 by (metis fst_conv snd_conv)
  then have "xi = grid_upd bb (ch_r ch) (ch_c ch) 0"
    using 4 xb by (simp add: apply_clear_def xd grid_grid_upd grid_upd_twice)
  then have "empty_count (grid_upd xi (ch_r ch) (ch_c ch) 1)
      = empty_count (grid_upd bb (ch_r ch) (ch_c ch) 1)"
    by (simp add: grid_upd_twice)
  moreover have "unat xa < unat cand"
    unfolding 4 using 4(1) by (rule xor_lowbit_less)
  ultimately show ?case by (simp add: mlex_iff)
qed

termination solve_rec
  by (rule solve_rec_total)

declare count_rec.simps [simp del] count_loop.simps [simp del]
declare solve_rec.simps [simp del] solve_loop.simps [simp del]

text \<open>
  \<open>count_solutions\<close> receives a pointer to the caller's board, copies the board into the
  local \<open>tmp\<close> and searches there. The model returns, beside the count, the board the
  pointer points to when the call is over. \<open>solve_board\<close> solves in place and returns
  the board with the result.
\<close>

definition count_solutions :: "Board \<Rightarrow> int \<Rightarrow> int \<times> Board" where
  "count_solutions b limit =
     (let m = masks_init fresh_masks b;
          tmp = b;
          (n, tmp', m') = count_rec tmp m limit
      in (n, b))"

definition solve_board :: "Board \<Rightarrow> bool \<times> Board" where
  "solve_board b =
     (let m = masks_init fresh_masks b;
          (ok, b', m') = solve_rec b m
      in (ok, b'))"

section \<open>Generator and carving\<close>

text \<open>
  The C library's \<^verbatim>\<open>rand()\<close> is a source of non-negative integers with hidden state. The
  model passes that state explicitly: a random source is the sequence of the values that
  the coming calls return, and \<open>rand\<close> takes the first and hands back the rest. Every function
  that calls \<^verbatim>\<open>rand()\<close> takes the source and returns it. Nothing is assumed about the
  values. \<open>shuffle_loop i\<close> is the loop of \<open>shuffle_array\<close> from the index \<open>i\<close> down to 1.
\<close>

type_synonym rng = "nat \<Rightarrow> nat"

definition rand :: "rng \<Rightarrow> nat \<times> rng" where
  "rand g = (g 0, (\<lambda>i. g (Suc i)))"

fun shuffle_loop :: "nat \<Rightarrow> rng \<Rightarrow> 'a list \<Rightarrow> 'a list \<times> rng" where
  "shuffle_loop 0 g a = (a, g)"
| "shuffle_loop (Suc i') g a =
     (let i = Suc i';
          (x, g') = rand g;
          j = x mod (i + 1);
          t = a ! i;
          a' = a[i := a ! j];
          a'' = a'[j := t]
      in shuffle_loop i' g' a'')"

definition shuffle_array :: "rng \<Rightarrow> 'a list \<Rightarrow> nat \<Rightarrow> 'a list \<times> rng" where
  "shuffle_array g a n = shuffle_loop (n - 1) g a"

text \<open>
  The generator. A \<open>Board\<close> is written in place; the arrays \<open>tmp\<close> and the board \<open>copy\<close>
  are filled from the board before any cell is written, so they are the functions of the
  board at that moment. The entry \<open>map[0]\<close> of \<open>permute_digits\<close> is never initialised, and
  is read only for a cell holding 0.
\<close>

definition base_complete :: "Board \<Rightarrow> Board" where
  "base_complete b =
     fold (\<lambda>r. fold (\<lambda>c b. grid_upd b r c (int ((r * 3 + r div 3 + c) mod 9) + 1)) [0..<N])
       [0..<N] b"

definition permute_digits :: "rng \<Rightarrow> Board \<Rightarrow> Board \<times> rng" where
  "permute_digits g b =
     (let (m, g') = shuffle_array g [1, 2, 3, 4, 5, 6, 7, 8, 9] 9;
          tab = undefined # m
      in (fold (\<lambda>r. fold (\<lambda>c b. let v = grid b r c in grid_upd b r c (tab ! nat v)) [0..<N])
            [0..<N] b, g'))"

definition shuffle_rows_band :: "nat \<Rightarrow> Board \<times> rng \<Rightarrow> Board \<times> rng" where
  "shuffle_rows_band band = (\<lambda>(b, g).
     let (rows, g') = shuffle_array g [band * 3, band * 3 + 1, band * 3 + 2] 3;
         tmp = (\<lambda>i c. grid b (rows ! i) c)
     in (fold (\<lambda>i. fold (\<lambda>c b. grid_upd b (band * 3 + i) c (tmp i c)) [0..<N]) [0..<3] b, g'))"

definition shuffle_rows_within_bands :: "rng \<Rightarrow> Board \<Rightarrow> Board \<times> rng" where
  "shuffle_rows_within_bands g b = fold shuffle_rows_band [0..<3] (b, g)"

definition shuffle_cols_stack :: "nat \<Rightarrow> Board \<times> rng \<Rightarrow> Board \<times> rng" where
  "shuffle_cols_stack stack = (\<lambda>(b, g).
     let (cols, g') = shuffle_array g [stack * 3, stack * 3 + 1, stack * 3 + 2] 3;
         tmp = (\<lambda>i r. grid b r (cols ! i))
     in (fold (\<lambda>i. fold (\<lambda>r b. grid_upd b r (stack * 3 + i) (tmp i r)) [0..<N]) [0..<3] b, g'))"

definition shuffle_cols_within_stacks :: "rng \<Rightarrow> Board \<Rightarrow> Board \<times> rng" where
  "shuffle_cols_within_stacks g b = fold shuffle_cols_stack [0..<3] (b, g)"

definition shuffle_bands :: "rng \<Rightarrow> Board \<Rightarrow> Board \<times> rng" where
  "shuffle_bands g b =
     (let (bands, g') = shuffle_array g [0, 1, 2] 3;
          copy = b
      in (fold (\<lambda>i. fold (\<lambda>r. fold (\<lambda>c b.
                 grid_upd b (i * 3 + r) c (grid copy (bands ! i * 3 + r) c)) [0..<N]) [0..<3])
            [0..<3] b, g'))"

definition shuffle_stacks :: "rng \<Rightarrow> Board \<Rightarrow> Board \<times> rng" where
  "shuffle_stacks g b =
     (let (stacks, g') = shuffle_array g [0, 1, 2] 3;
          copy = b
      in (fold (\<lambda>i. fold (\<lambda>c. fold (\<lambda>r b.
                 grid_upd b r (i * 3 + c) (grid copy r (stacks ! i * 3 + c))) [0..<N]) [0..<3])
            [0..<3] b, g'))"

definition generate_complete :: "rng \<Rightarrow> Board \<Rightarrow> Board \<times> rng" where
  "generate_complete g sol =
     (let sol = base_complete sol;
          (sol, g) = permute_digits g sol;
          (sol, g) = shuffle_rows_within_bands g sol;
          (sol, g) = shuffle_cols_within_stacks g sol;
          (sol, g) = shuffle_bands g sol;
          (sol, g) = shuffle_stacks g sol
      in (sol, g))"

text \<open>
  Carving. \<open>carve_test\<close> is the tentative grid \<open>test\<close> of the loop body of \<open>make_puzzle\<close>
  together with \<open>removed\<close>; \<open>carve_cell\<close> is the rest of the body for a cell that holds a digit,
  giving the puzzle and the clue counter after it; \<open>carve_loop\<close> is the \<^verbatim>\<open>for\<close> loop from
  the index \<open>idx\<close> on, over the shuffled array \<open>cs\<close> (the \<open>cells\<close> of the source) whose entries
  are below 81, so that \<open>8 - r\<close> and \<open>8 - c\<close> are not negative. The enumeration has three
  values, so the \<^verbatim>\<open>default\<close> of \<open>target_clues\<close> is never taken.
\<close>

datatype Difficulty = DIFF_EASY | DIFF_MEDIUM | DIFF_HARD

fun target_clues :: "Difficulty \<Rightarrow> int" where
  "target_clues DIFF_EASY = 45"
| "target_clues DIFF_MEDIUM = 36"
| "target_clues DIFF_HARD = 27"

definition carve_test :: "Board \<Rightarrow> nat \<Rightarrow> nat \<Rightarrow> Board \<times> int" where
  "carve_test puzzle r c =
     (let sr = 8 - r; sc = 8 - c;
          removed = 0;
          test = puzzle;
          test = grid_upd test r c 0;
          removed = removed + 1
      in if \<not> (sr = r \<and> sc = c) \<and> grid test sr sc \<noteq> 0
         then (grid_upd test sr sc 0, removed + 1)
         else (test, removed))"

definition carve_cell :: "Board \<Rightarrow> int \<Rightarrow> nat \<Rightarrow> nat \<Rightarrow> Board \<times> int" where
  "carve_cell puzzle clues r c =
     (let sr = 8 - r; sc = 8 - c;
          (test, removed) = carve_test puzzle r c;
          sols = fst (count_solutions test 2)
      in if sols = 1
         then let puzzle = grid_upd puzzle r c 0;
                  puzzle = (if \<not> (sr = r \<and> sc = c) then grid_upd puzzle sr sc 0 else puzzle)
              in (puzzle, clues - removed)
         else (puzzle, clues))"

function carve_loop :: "nat list \<Rightarrow> int \<Rightarrow> Board \<Rightarrow> int \<Rightarrow> int \<Rightarrow> nat \<Rightarrow> Board" where
  "carve_loop cs target puzzle clues attempts idx =
     (if idx < N * N \<and> clues > target
      then let i = cs ! idx; r = i div 9; c = i mod 9
           in if grid puzzle r c = 0
              then carve_loop cs target puzzle clues attempts (idx + 1)
              else let (puzzle', clues') = carve_cell puzzle clues r c;
                       attempts' = attempts + 1
                   in if attempts' > 20000 then puzzle'
                      else carve_loop cs target puzzle' clues' attempts' (idx + 1)
      else puzzle)"
  by pat_completeness auto

lemma carve_loop_total: "All carve_loop_dom"
  by (relation "measure (\<lambda>(cs, target, puzzle, clues, attempts, idx). N * N - idx)") auto

termination carve_loop
  by (rule carve_loop_total)

declare carve_loop.simps [simp del]

definition make_puzzle :: "rng \<Rightarrow> Board \<Rightarrow> Difficulty \<Rightarrow> Board \<times> rng" where
  "make_puzzle g solution d =
     (let puzzle = solution;
          target = target_clues d;
          clues = int (N * N);
          (cs, g') = shuffle_array g [0..<N * N] (N * N)
      in (carve_loop cs target puzzle clues 0 0, g'))"


section \<open>Every placement of the search is undone\<close>

lemma ALL_bits_mask: "ALL_bits = mask 9"
  by (simp add: ALL_bits_def mask_eq_exp_minus_1)

lemma bit_candidates_mask:
  "bit (candidates_mask m r c) n \<longleftrightarrow>
     n < 9 \<and> \<not> bit (row m r) n \<and> \<not> bit (col m c) n \<and> \<not> bit (box m (box_index r c)) n"
  by (auto simp: candidates_mask_def used_mask_def ALL_bits_mask bit_and_iff bit_not_iff
      bit_or_iff bit_mask_iff)

lemma takeWhile_neq_upt: "k < m \<Longrightarrow> takeWhile (\<lambda>n. n \<noteq> k) [0..<m] = [0..<k]"
proof -
  assume "k < m"
  then have "[0..<m] = [0..<k] @ k # [Suc k..<m]"
    using upt_add_eq_append [of 0 k "m - k"] by (simp add: upt_conv_Cons)
  then show ?thesis by (simp add: takeWhile_tail)
qed

lemma lsb_index_exp: "k < 32 \<Longrightarrow> lsb_index (push_bit k 1) = int k"
proof -
  assume k: "k < 32"
  have "takeWhile (\<lambda>n. \<not> bit (push_bit k 1 :: 32 word) n) [0..<32]
      = takeWhile (\<lambda>n. n \<noteq> k) [0..<32]"
    by (rule takeWhile_cong) (auto simp: bit_exp_iff)
  then show ?thesis
    using takeWhile_neq_upt [OF k] by (simp add: lsb_index_def)
qed

lemma lowbit_step:
  fixes cand :: "32 word"
  assumes "cand \<noteq> 0"
  shows "\<exists>k. k < 32 \<and> bit cand k \<and> (\<forall>j<k. \<not> bit cand j) \<and>
    cand AND - cand = digit_bit (int k + 1) \<and>
    lsb_index (cand AND - cand) + 1 = int k + 1 \<and>
    (\<forall>n. bit (cand XOR (cand AND - cand)) n \<longleftrightarrow> bit cand n \<and> n \<noteq> k)"
proof -
  from word_least_bit [OF assms] obtain k where k: "bit cand k" "\<forall>j<k. \<not> bit cand j"
    by blast
  have k32: "k < 32" using bit_imp_le_length [OF k(1)] by simp
  have lk: "cand AND - cand = push_bit k 1" using k by (rule lowbit_word)
  have "\<forall>n. bit (cand XOR (cand AND - cand)) n \<longleftrightarrow> bit cand n \<and> n \<noteq> k"
    unfolding lk using k(1) by (auto simp: bit_xor_iff bit_exp_iff dest: bit_imp_possible_bit)
  moreover have "lsb_index (cand AND - cand) + 1 = int k + 1"
    unfolding lk using k32 by (simp only: lsb_index_exp)
  moreover have "cand AND - cand = digit_bit (int k + 1)"
    unfolding lk by (simp add: digit_bit_def)
  ultimately show ?thesis using k k32 by (intro exI [of _ k]) simp
qed


lemma set_clear_candidate:
  assumes e: "grid bb r c = 0" and k: "bit (candidates_mask mm r c) k"
  shows "apply_clear (grid_upd bb r c (int k + 1)) (masks_or mm r c (digit_bit (int k + 1))) r c
         = (bb, mm)"
proof -
  from k have "\<not> (bit (row mm r) k \<or> bit (col mm c) k \<or> bit (box mm (box_index r c)) k)"
    by (simp add: bit_candidates_mask)
  then have "masks_andnot (masks_or mm r c (digit_bit (int k + 1))) r c (digit_bit (int k + 1)) = mm"
    by (simp add: masks_or_andnot)
  moreover have "grid_upd bb r c 0 = bb" using e by (rule grid_upd_same)
  ultimately show ?thesis
    by (simp add: apply_clear_def grid_grid_upd grid_upd_twice)
qed

lemma count_restore:
  "snd (count_rec bb mm lim) = (bb, mm)"
  "grid bb (ch_r ch) (ch_c ch) = 0 \<Longrightarrow>
   (\<forall>n. bit cand n \<longrightarrow> bit (candidates_mask mm (ch_r ch) (ch_c ch)) n) \<Longrightarrow>
     snd (count_loop bb mm ch cand lim tot) = (bb, mm)"
proof (induct bb mm lim and bb mm ch cand lim tot rule: count_rec_count_loop.induct)
  case (1 bb mm lim)
  show ?case
  proof (cases "find_best_cell bb mm")
    case None
    then show ?thesis by (simp add: count_rec.simps)
  next
    case (Some ch)
    show ?thesis
    proof (cases "any_empty bb")
      case True
      have "snd (count_loop bb mm ch (ch_cand ch) lim 0) = (bb, mm)"
        using find_best_cell_Some(3,4) [OF Some] by (intro 1) (simp_all add: True Some)
      then show ?thesis using True Some by (simp add: count_rec.simps)
    qed (simp add: count_rec.simps)
  qed
next
  case (2 bb mm ch cand lim tot)
  show ?case
  proof (cases "cand = 0")
    case True
    then show ?thesis by (simp add: count_loop.simps)
  next
    case False
    from lowbit_step [OF False] obtain k where k: "k < 32" "bit cand k"
      "cand AND - cand = digit_bit (int k + 1)"
      "lsb_index (cand AND - cand) + 1 = int k + 1"
      "\<forall>n. bit (cand XOR (cand AND - cand)) n \<longleftrightarrow> bit cand n \<and> n \<noteq> k"
      by (elim exE conjE)
    define bb1 where "bb1 = grid_upd bb (ch_r ch) (ch_c ch) (int k + 1)"
    define mm1 where "mm1 = masks_or mm (ch_r ch) (ch_c ch) (digit_bit (int k + 1))"
    have e1: "(bb1, mm1) = apply_set bb mm (ch_r ch) (ch_c ch) (lsb_index (cand AND - cand) + 1)"
      by (simp add: apply_set_def bb1_def mm1_def k(4))
    obtain n where res: "count_rec bb1 mm1 (lim - tot) = (n, bb1, mm1)"
      using 2(1) [OF False refl refl refl refl e1] by (cases "count_rec bb1 mm1 (lim - tot)") auto
    have clr: "apply_clear bb1 mm1 (ch_r ch) (ch_c ch) = (bb, mm)"
      unfolding bb1_def mm1_def using 2(3) 2(4) k(2) by (intro set_clear_candidate) auto
    have unf: "count_loop bb mm ch cand lim tot =
        (if lim \<le> tot + n then (tot + n, bb, mm)
         else count_loop bb mm ch (cand XOR (cand AND - cand)) lim (tot + n))"
      using False e1 [symmetric] res clr by (subst count_loop.simps) (simp add: Let_def)
    show ?thesis
    proof (cases "lim \<le> tot + n")
      case True
      then show ?thesis using unf by simp
    next
      case nle: False
      have "snd (count_loop bb mm ch (cand XOR (cand AND - cand)) lim (tot + n)) = (bb, mm)"
        using 2(2) [OF False refl refl refl refl e1 refl res [symmetric] refl refl refl
            clr [symmetric] nle] 2(3) 2(4) k(5) by simp
      then show ?thesis using unf nle by simp
    qed
  qed
qed

lemma solve_restore:
  "\<not> fst (solve_rec bb mm) \<Longrightarrow> snd (solve_rec bb mm) = (bb, mm)"
  "grid bb (ch_r ch) (ch_c ch) = 0 \<Longrightarrow>
   (\<forall>n. bit cand n \<longrightarrow> bit (candidates_mask mm (ch_r ch) (ch_c ch)) n) \<Longrightarrow>
   \<not> fst (solve_loop bb mm ch cand) \<Longrightarrow>
     snd (solve_loop bb mm ch cand) = (bb, mm)"
proof (induct bb mm and bb mm ch cand rule: solve_rec_solve_loop.induct)
  case (1 bb mm)
  show ?case
  proof (cases "find_best_cell bb mm")
    case None
    then show ?thesis by (simp add: solve_rec.simps)
  next
    case (Some ch)
    show ?thesis
    proof (cases "any_empty bb")
      case True
      have "snd (solve_loop bb mm ch (ch_cand ch)) = (bb, mm)"
        using find_best_cell_Some(3,4) [OF Some] 1(2)
        by (intro 1(1)) (simp_all add: True Some solve_rec.simps)
      then show ?thesis using True Some by (simp add: solve_rec.simps)
    qed (simp add: solve_rec.simps)
  qed
next
  case (2 bb mm ch cand)
  show ?case
  proof (cases "cand = 0")
    case True
    then show ?thesis by (simp add: solve_loop.simps)
  next
    case False
    from lowbit_step [OF False] obtain k where k: "k < 32" "bit cand k"
      "cand AND - cand = digit_bit (int k + 1)"
      "lsb_index (cand AND - cand) + 1 = int k + 1"
      "\<forall>n. bit (cand XOR (cand AND - cand)) n \<longleftrightarrow> bit cand n \<and> n \<noteq> k"
      by (elim exE conjE)
    define bb1 where "bb1 = grid_upd bb (ch_r ch) (ch_c ch) (int k + 1)"
    define mm1 where "mm1 = masks_or mm (ch_r ch) (ch_c ch) (digit_bit (int k + 1))"
    have e1: "(bb1, mm1) = apply_set bb mm (ch_r ch) (ch_c ch) (lsb_index (cand AND - cand) + 1)"
      by (simp add: apply_set_def bb1_def mm1_def k(4))
    obtain ok bb2 mm2 where res: "solve_rec bb1 mm1 = (ok, bb2, mm2)"
      by (cases "solve_rec bb1 mm1") auto
    obtain bb3 mm3 where clr: "apply_clear bb2 mm2 (ch_r ch) (ch_c ch) = (bb3, mm3)"
      by (cases "apply_clear bb2 mm2 (ch_r ch) (ch_c ch)") auto
    have unf: "solve_loop bb mm ch cand =
        (if ok then (True, bb2, mm2) else solve_loop bb3 mm3 ch (cand XOR (cand AND - cand)))"
      using False e1 [symmetric] res clr by (subst solve_loop.simps) (simp add: Let_def)
    with 2(5) have nok: "\<not> ok" by (auto split: if_splits)
    have "snd (solve_rec bb1 mm1) = (bb1, mm1)"
      using 2(1) [OF False refl refl refl refl e1] res nok by simp
    then have eq2: "bb2 = bb1" "mm2 = mm1" using res by simp_all
    have "apply_clear bb1 mm1 (ch_r ch) (ch_c ch) = (bb, mm)"
      unfolding bb1_def mm1_def using 2(3) 2(4) k(2) by (intro set_clear_candidate) auto
    then have eq3: "bb3 = bb" "mm3 = mm" using clr eq2 by simp_all
    have "snd (solve_loop bb3 mm3 ch (cand XOR (cand AND - cand))) = (bb3, mm3)"
      using 2(2) [OF False refl refl refl refl e1 refl res [symmetric] refl nok refl
          clr [symmetric]] 2(3) 2(4) 2(5) k(5) unf nok eq3 by simp
    then show ?thesis using unf nok eq3 by simp
  qed
qed



section \<open>Concrete boards\<close>

text \<open>Boards written row by row, for the concrete instances below.\<close>

definition board_of :: "int list list \<Rightarrow> Board" where
  "board_of rows = \<lparr>grid = (\<lambda>r c. if r < N \<and> c < N then rows ! r ! c else 0)\<rparr>"

text \<open>A legal board without completion: the empty cell \<open>(0,0)\<close> sees 1..8 in its row and 9
  in its column.\<close>

definition dead_board :: Board where
  "dead_board = board_of
    [[0,1,2, 3,4,5, 6,7,8],
     [9,0,0, 0,0,0, 0,0,0],
     [0,0,0, 0,0,0, 0,0,0],
     [0,0,0, 0,0,0, 0,0,0],
     [0,0,0, 0,0,0, 0,0,0],
     [0,0,0, 0,0,0, 0,0,0],
     [0,0,0, 0,0,0, 0,0,0],
     [0,0,0, 0,0,0, 0,0,0],
     [0,0,0, 0,0,0, 0,0,0]]"

lemma upt9: "[0..<N] = [0, 1, 2, 3, 4, 5, 6, 7, 8]"
  by (simp add: upt_rec)

lemma cells_0: "cells = (0, 0) # tl cells"
  by (simp add: cells_def upt9)

lemma popcount9_0: "popcount9 0 = 0"
  by (simp add: popcount9_def)

lemma dead_board_candidates:
  "candidates_mask (masks_init fresh_masks dead_board) 0 0 = 0"
  by (simp add: masks_init_def fresh_masks_def dead_board_def board_of_def masks_or_def
        digit_bit_def upt9 candidates_mask_def used_mask_def ALL_bits_def box_index_def)

lemma dead_board_find:
  "find_best_cell dead_board (masks_init fresh_masks dead_board) = None"
  unfolding find_best_cell_def
  by (subst cells_0) (simp add: dead_board_candidates popcount9_0, simp add: dead_board_def board_of_def)

lemma dead_board_any_empty: "any_empty dead_board"
  by (simp add: any_empty_def dead_board_def board_of_def upt9)

lemma dead_board_solve_rec:
  "solve_rec dead_board (masks_init fresh_masks dead_board)
     = (False, dead_board, masks_init fresh_masks dead_board)"
  by (simp add: solve_rec.simps dead_board_any_empty dead_board_find)

text \<open>A board whose first empty cell \<open>(0,0)\<close> has the single candidate 9.\<close>

definition single_board :: Board where
  "single_board = board_of
    [[0,1,2, 3,4,5, 6,7,8],
     [0,0,0, 0,0,0, 0,0,0],
     [0,0,0, 0,0,0, 0,0,0],
     [0,0,0, 0,0,0, 0,0,0],
     [0,0,0, 0,0,0, 0,0,0],
     [0,0,0, 0,0,0, 0,0,0],
     [0,0,0, 0,0,0, 0,0,0],
     [0,0,0, 0,0,0, 0,0,0],
     [0,0,0, 0,0,0, 0,0,0]]"

lemma single_board_candidates:
  "candidates_mask (masks_init fresh_masks single_board) 0 0 = 256"
  by (simp add: masks_init_def fresh_masks_def single_board_def board_of_def masks_or_def
        digit_bit_def upt9 candidates_mask_def used_mask_def ALL_bits_def box_index_def)

lemma popcount9_256: "popcount9 256 = 1"
  by (simp add: popcount9_def upt_rec bit_numeral_word_iff)

lemma single_board_find:
  "find_best_cell single_board (masks_init fresh_masks single_board)
     = Some \<lparr>ch_r = 0, ch_c = 0, ch_cand = 256\<rparr>"
  unfolding find_best_cell_def
  by (subst cells_0) (simp add: single_board_candidates popcount9_256, simp add: single_board_def board_of_def)


text \<open>A legal board on which the empty cell \<open>(0,0)\<close> has the single candidate 9 and the
  empty cell \<open>(4,4)\<close> has no candidate at all: its row holds 1,2,3,5,6,7, its column 4 and
  its block 8 and 9.\<close>

definition shadow_board :: Board where
  "shadow_board = board_of
    [[0,1,2, 3,4,5, 6,7,8],
     [0,0,0, 0,0,0, 0,0,0],
     [0,0,0, 0,0,0, 0,0,0],
     [0,0,0, 8,0,0, 0,0,0],
     [1,2,3, 0,0,0, 5,6,7],
     [0,0,0, 0,0,9, 0,0,0],
     [0,0,0, 0,0,0, 0,0,0],
     [0,0,0, 0,0,0, 0,0,0],
     [0,0,0, 0,0,0, 0,0,0]]"

lemma shadow_board_masks:
  "candidates_mask (masks_init fresh_masks shadow_board) 0 0 = 256"
  "candidates_mask (masks_init fresh_masks shadow_board) 4 4 = 0"
  by (simp_all add: masks_init_def fresh_masks_def shadow_board_def board_of_def masks_or_def
        digit_bit_def upt9 candidates_mask_def used_mask_def ALL_bits_def box_index_def)


text \<open>
  A legal board on which both \<open>(0,0)\<close> and \<open>(1,0)\<close> admit the digit 9 only: the search
  places 9 at \<open>(0,0)\<close>, finds no candidate left for \<open>(1,0)\<close>, takes the 9 back and fails.
\<close>

definition twin_board :: Board where
  "twin_board = board_of
    [[0,1,2, 3,4,5, 6,7,8],
     [0,0,0, 6,7,8, 3,4,5],
     [0,0,0, 0,0,0, 0,0,0],
     [0,0,0, 0,0,0, 0,0,0],
     [0,0,0, 0,0,0, 0,0,0],
     [0,0,0, 0,0,0, 0,0,0],
     [0,0,0, 0,0,0, 0,0,0],
     [0,0,0, 0,0,0, 0,0,0],
     [0,0,0, 0,0,0, 0,0,0]]"

definition twin_masks :: Masks where
  "twin_masks = masks_init fresh_masks twin_board"

lemma twin_masks_eval:
  "twin_masks =
     \<lparr>row = (\<lambda>_. 0)(0 := 255, 1 := 252),
      col = (\<lambda>_. 0)(1 := 1, 2 := 2, 3 := 36, 4 := 72, 5 := 144, 6 := 36, 7 := 72, 8 := 144),
      box = (\<lambda>_. 0)(0 := 3, 1 := 252, 2 := 252)\<rparr>"
  unfolding twin_masks_def
  by (simp add: masks_init_def fresh_masks_def twin_board_def board_of_def masks_or_def
        digit_bit_def upt9 box_index_def) (auto simp: fun_eq_iff)

lemma twin_any_empty: "any_empty twin_board"
  by (simp add: any_empty_def twin_board_def board_of_def upt9)

lemma twin_find:
  "find_best_cell twin_board twin_masks = Some \<lparr>ch_r = 0, ch_c = 0, ch_cand = 256\<rparr>"
proof -
  have c: "candidates_mask twin_masks 0 0 = 256"
    by (simp add: twin_masks_eval candidates_mask_def used_mask_def ALL_bits_def box_index_def)
  show ?thesis
    unfolding find_best_cell_def
    by (subst cells_0) (simp add: c popcount9_256, simp add: twin_board_def board_of_def)
qed

lemma word256:
  "(256 :: 32 word) AND - 256 = 256" "lsb_index 256 + 1 = 9" "(256 :: 32 word) XOR 256 = 0"
  by (simp_all add: lsb_index_def upt_rec bit_numeral_word_iff)

lemma cells_eval: "take 10 cells = [(0,0),(0,1),(0,2),(0,3),(0,4),(0,5),(0,6),(0,7),(0,8),(1,0)]"
  by (simp add: cells_def upt9)

lemma twin_after_find:
  "find_best_cell (grid_upd twin_board 0 0 9) (masks_or twin_masks 0 0 (digit_bit 9)) = None"
proof -
  have c: "candidates_mask (masks_or twin_masks 0 0 (digit_bit 9)) (Suc 0) 0 = 0"
    by (simp add: twin_masks_eval masks_or_def digit_bit_def candidates_mask_def used_mask_def
        ALL_bits_def box_index_def)
  have cs: "cells = [(0,0),(0,1),(0,2),(0,3),(0,4),(0,5),(0,6),(0,7),(0,8),(1,0)] @ drop 10 cells"
    using cells_eval append_take_drop_id [of 10 cells] by simp
  show ?thesis
    unfolding find_best_cell_def
    by (subst cs) (simp add: c popcount9_0 grid_grid_upd twin_board_def board_of_def)
qed

lemma twin_after_any_empty: "any_empty (grid_upd twin_board 0 0 9)"
  by (simp add: any_empty_def twin_board_def board_of_def upt9 grid_grid_upd)

lemma twin_solve_fails: "\<not> fst (solve_rec twin_board twin_masks)"
proof -
  have inner: "solve_rec (grid_upd twin_board 0 0 9) (masks_or twin_masks 0 0 (digit_bit 9))
      = (False, grid_upd twin_board 0 0 9, masks_or twin_masks 0 0 (digit_bit 9))"
    by (simp add: solve_rec.simps twin_after_any_empty twin_after_find)
  have e: "grid twin_board 0 0 = 0" by (simp add: twin_board_def board_of_def)
  have b: "bit (candidates_mask twin_masks 0 0) 8"
    by (simp add: twin_masks_eval candidates_mask_def used_mask_def ALL_bits_def box_index_def
        bit_numeral_word_iff)
  have clr: "apply_clear (grid_upd twin_board 0 0 9) (masks_or twin_masks 0 0 (digit_bit 9)) 0 0
      = (twin_board, twin_masks)"
    using set_clear_candidate [OF e b] by simp
  have "solve_loop twin_board twin_masks \<lparr>ch_r = 0, ch_c = 0, ch_cand = 256\<rparr> 256
      = solve_loop twin_board twin_masks \<lparr>ch_r = 0, ch_c = 0, ch_cand = 256\<rparr> 0"
    by (subst solve_loop.simps) (simp add: word256 apply_set_def inner clr)
  also have "\<dots> = (False, twin_board, twin_masks)"
    by (simp add: solve_loop.simps)
  finally show ?thesis
    by (simp add: solve_rec.simps twin_any_empty twin_find)
qed


section \<open>A failed solve and a count leave the state as it was\<close>

text \<open>
  Claim C9: whenever \<open>solve_rec\<close> returns false, the board and the masks it hands back
  are the board and the masks it was called with, whatever these were: every
  \<open>apply_set\<close> of the call has been undone by its \<open>apply_clear\<close>.
\<close>

theorem solve_rec_false_restores:
  assumes "solve_rec bb mm = (False, bb', mm')"
  shows "bb' = bb \<and> mm' = mm"
  using solve_restore(1) [of bb mm] assms by simp

theorem solve_rec_false_restores_witness:
  "find_best_cell twin_board twin_masks = Some \<lparr>ch_r = 0, ch_c = 0, ch_cand = 256\<rparr>
   \<and> fst (apply_set twin_board twin_masks 0 0 9) \<noteq> twin_board
   \<and> solve_rec twin_board twin_masks = (False, twin_board, twin_masks)"
proof -
  obtain ok bb' mm' where r: "solve_rec twin_board twin_masks = (ok, bb', mm')"
    by (cases "solve_rec twin_board twin_masks") auto
  have "\<not> ok" using twin_solve_fails r by simp
  then have "bb' = twin_board \<and> mm' = twin_masks"
    using solve_rec_false_restores [of twin_board twin_masks bb' mm'] r by simp
  moreover have "grid (fst (apply_set twin_board twin_masks 0 0 9)) 0 0 \<noteq> grid twin_board 0 0"
    by (simp add: apply_set_def grid_grid_upd twin_board_def board_of_def)
  then have "fst (apply_set twin_board twin_masks 0 0 9) \<noteq> twin_board" by auto
  ultimately show ?thesis using r \<open>\<not> ok\<close> twin_find by simp
qed

text \<open>
  Claim C10: \<open>count_solutions\<close> never modifies the board passed to it. The board behind the
  caller's pointer is not written at all, and the private copy on which \<open>count_rec\<close> runs
  (with any masks and any limit) is itself handed back as it was.
\<close>

theorem count_solutions_frame:
  "snd (count_solutions b k) = b \<and> snd (count_rec b m k) = (b, m)"
  by (simp add: count_solutions_def count_restore(1) split: prod.splits)


section \<open>Termination and recursion depth\<close>

text \<open>
  The nesting depth of the recursion. \<open>count_rec_depth bb mm lim\<close> is the largest number of
  calls of \<open>count_rec\<close> that are open at one time below the call \<open>count_rec bb mm lim\<close>: it
  follows the equations of \<open>count_rec\<close> and \<open>count_loop\<close> branch by branch, with the results
  of \<open>count_rec\<close> itself deciding how the loop goes on, and counts one level for every
  recursive call. \<open>solve_rec_depth\<close> does the same for \<open>solve_rec\<close>.
\<close>

function count_rec_depth :: "Board \<Rightarrow> Masks \<Rightarrow> int \<Rightarrow> nat"
  and count_loop_depth :: "Board \<Rightarrow> Masks \<Rightarrow> Choice \<Rightarrow> 32 word \<Rightarrow> int \<Rightarrow> int \<Rightarrow> nat"
where
  "count_rec_depth bb mm lim =
     (if \<not> any_empty bb then 0
      else case find_best_cell bb mm of
             None \<Rightarrow> 0
           | Some ch \<Rightarrow> count_loop_depth bb mm ch (ch_cand ch) lim 0)"
| "count_loop_depth bb mm ch cand lim tot =
     (if cand = 0 then 0
      else let lowbit = cand AND - cand;
               cand' = cand XOR lowbit;
               v = lsb_index lowbit + 1;
               (bb1, mm1) = apply_set bb mm (ch_r ch) (ch_c ch) v;
               d = Suc (count_rec_depth bb1 mm1 (lim - tot));
               (n, bb2, mm2) = count_rec bb1 mm1 (lim - tot);
               tot' = tot + n;
               (bb3, mm3) = apply_clear bb2 mm2 (ch_r ch) (ch_c ch)
           in if tot' \<ge> lim then d
              else max d (count_loop_depth bb3 mm3 ch cand' lim tot'))"
  by pat_completeness auto

lemma count_rec_depth_total: "All count_rec_depth_count_loop_depth_dom"
proof (relation "(\<lambda>x. case x of Inl (bb, mm, lim) \<Rightarrow> empty_count bb
                      | Inr (bb, mm, ch, cand, lim, tot) \<Rightarrow>
                          empty_count (grid_upd bb (ch_r ch) (ch_c ch) 1))
                 <*mlex*> measure (\<lambda>x. case x of Inl _ \<Rightarrow> 0
                      | Inr (bb, mm, ch, cand, lim, tot) \<Rightarrow> Suc (unat cand))", goal_cases)
  case 1
  show ?case by (simp add: wf_mlex)
next
  case (2 bb mm lim ch)
  have "Suc (empty_count (grid_upd bb (ch_r ch) (ch_c ch) 1)) = empty_count bb"
    using find_best_cell_Some(1-3) [OF 2(2)] by (intro empty_count_fill) simp_all
  then show ?case by (simp add: mlex_less)
next
  case (3 bb mm ch cand lim tot x xa xb xc xd y)
  have "xd = grid_upd bb (ch_r ch) (ch_c ch) xb"
    using 3 by (simp add: apply_set_def)
  moreover have "xb \<noteq> 0" unfolding 3 by (rule lsb_index_nonneg)
  ultimately have "empty_count xd = empty_count (grid_upd bb (ch_r ch) (ch_c ch) 1)"
    using empty_count_nonzero [of xb 1] by simp
  then show ?case by (simp add: mlex_iff)
next
  case (4 bb mm ch cand lim tot x xa xb xc xd y xe xf xg ya xh yb xi xj xk yc)
  have xb: "xb \<noteq> 0" unfolding 4 by (rule lsb_index_nonneg)
  have xd: "xd = grid_upd bb (ch_r ch) (ch_c ch) xb"
    using 4 by (simp add: apply_set_def)
  have "snd (count_rec xd y (lim - tot)) = (xd, y)" by (rule count_restore(1))
  then have "xh = xd" using 4(8,9,10) by (metis fst_conv snd_conv)
  then have "xk = grid_upd bb (ch_r ch) (ch_c ch) 0"
    using 4(12,13) xb by (simp add: apply_clear_def xd grid_grid_upd grid_upd_twice)
  then have "empty_count (grid_upd xk (ch_r ch) (ch_c ch) 1)
      = empty_count (grid_upd bb (ch_r ch) (ch_c ch) 1)"
    by (simp add: grid_upd_twice)
  moreover have "unat xa < unat cand"
    unfolding 4 using 4(1) by (rule xor_lowbit_less)
  ultimately show ?case by (simp add: mlex_iff)
qed

termination count_rec_depth
  by (rule count_rec_depth_total)

declare count_rec_depth.simps [simp del] count_loop_depth.simps [simp del]

lemma count_depth_bound:
  "count_rec_depth bb mm lim \<le> empty_count bb"
  "count_loop_depth bb mm ch cand lim tot \<le> Suc (empty_count (grid_upd bb (ch_r ch) (ch_c ch) 1))"
proof (induct bb mm lim and bb mm ch cand lim tot rule: count_rec_depth_count_loop_depth.induct)
  case (1 bb mm lim)
  show ?case
  proof (cases "any_empty bb")
    case False
    then show ?thesis by (simp add: count_rec_depth.simps)
  next
    case True
    show ?thesis
    proof (cases "find_best_cell bb mm")
      case None
      then show ?thesis using True by (simp add: count_rec_depth.simps)
    next
      case (Some ch)
      have "Suc (empty_count (grid_upd bb (ch_r ch) (ch_c ch) 1)) = empty_count bb"
        using find_best_cell_Some(1-3) [OF Some] by (intro empty_count_fill) simp_all
      then show ?thesis
        using True Some 1 [of ch] by (simp add: count_rec_depth.simps)
    qed
  qed
next
  case (2 bb mm ch cand lim tot)
  show ?case
  proof (cases "cand = 0")
    case True
    then show ?thesis by (simp add: count_loop_depth.simps)
  next
    case False
    define v where "v = lsb_index (cand AND - cand) + 1"
    define bb1 where "bb1 = grid_upd bb (ch_r ch) (ch_c ch) v"
    define mm1 where "mm1 = masks_or mm (ch_r ch) (ch_c ch) (digit_bit v)"
    obtain n bb2 mm2 where res: "count_rec bb1 mm1 (lim - tot) = (n, bb2, mm2)"
      by (cases "count_rec bb1 mm1 (lim - tot)") auto
    have v: "v \<noteq> 0" unfolding v_def by (rule lsb_index_nonneg)
    have e1: "(bb1, mm1) = apply_set bb mm (ch_r ch) (ch_c ch) (lsb_index (cand AND - cand) + 1)"
      by (simp add: apply_set_def bb1_def mm1_def v_def)
    have "snd (count_rec bb1 mm1 (lim - tot)) = (bb1, mm1)" by (rule count_restore(1))
    then have bb2: "bb2 = bb1" using res by simp
    obtain bb3 mm3 where clr: "apply_clear bb2 mm2 (ch_r ch) (ch_c ch) = (bb3, mm3)"
      by (cases "apply_clear bb2 mm2 (ch_r ch) (ch_c ch)") auto
    have bb3: "bb3 = grid_upd bb (ch_r ch) (ch_c ch) 0"
      using clr v by (simp add: apply_clear_def bb2 bb1_def grid_grid_upd grid_upd_twice)
    have "count_rec_depth bb1 mm1 (lim - tot) \<le> empty_count bb1"
      by (rule 2(1) [OF False refl refl refl refl e1])
    also have "empty_count bb1 = empty_count (grid_upd bb (ch_r ch) (ch_c ch) 1)"
      unfolding bb1_def using v by (intro empty_count_nonzero) simp_all
    finally have d: "Suc (count_rec_depth bb1 mm1 (lim - tot))
        \<le> Suc (empty_count (grid_upd bb (ch_r ch) (ch_c ch) 1))" by simp
    show ?thesis
    proof (cases "lim \<le> tot + n")
      case True
      then show ?thesis
        using False res clr d
        by (simp add: count_loop_depth.simps apply_set_def Let_def bb1_def [symmetric]
            mm1_def [symmetric] v_def [symmetric])
    next
      case nle: False
      have "count_loop_depth bb3 mm3 ch (cand XOR (cand AND - cand)) lim (tot + n)
          \<le> Suc (empty_count (grid_upd bb3 (ch_r ch) (ch_c ch) 1))"
        by (rule 2(2) [OF False refl refl refl refl e1 refl refl res [symmetric] refl refl refl
              clr [symmetric] nle])
      then have "count_loop_depth bb3 mm3 ch (cand XOR (cand AND - cand)) lim (tot + n)
          \<le> Suc (empty_count (grid_upd bb (ch_r ch) (ch_c ch) 1))"
        by (simp add: bb3 grid_upd_twice)
      then show ?thesis
        using False res clr d nle
        by (simp add: count_loop_depth.simps apply_set_def Let_def bb1_def [symmetric]
            mm1_def [symmetric] v_def [symmetric])
    qed
  qed
qed

function solve_rec_depth :: "Board \<Rightarrow> Masks \<Rightarrow> nat"
  and solve_loop_depth :: "Board \<Rightarrow> Masks \<Rightarrow> Choice \<Rightarrow> 32 word \<Rightarrow> nat"
where
  "solve_rec_depth bb mm =
     (if \<not> any_empty bb then 0
      else case find_best_cell bb mm of
             None \<Rightarrow> 0
           | Some ch \<Rightarrow> solve_loop_depth bb mm ch (ch_cand ch))"
| "solve_loop_depth bb mm ch cand =
     (if cand = 0 then 0
      else let lowbit = cand AND - cand;
               cand' = cand XOR lowbit;
               v = lsb_index lowbit + 1;
               (bb1, mm1) = apply_set bb mm (ch_r ch) (ch_c ch) v;
               d = Suc (solve_rec_depth bb1 mm1);
               (ok, bb2, mm2) = solve_rec bb1 mm1
           in if ok then d
              else let (bb3, mm3) = apply_clear bb2 mm2 (ch_r ch) (ch_c ch)
                   in max d (solve_loop_depth bb3 mm3 ch cand'))"
  by pat_completeness auto

lemma solve_rec_depth_total: "All solve_rec_depth_solve_loop_depth_dom"
proof (relation "(\<lambda>x. case x of Inl (bb, mm) \<Rightarrow> empty_count bb
                      | Inr (bb, mm, ch, cand) \<Rightarrow>
                          empty_count (grid_upd bb (ch_r ch) (ch_c ch) 1))
                 <*mlex*> measure (\<lambda>x. case x of Inl _ \<Rightarrow> 0
                      | Inr (bb, mm, ch, cand) \<Rightarrow> Suc (unat cand))", goal_cases)
  case 1
  show ?case by (simp add: wf_mlex)
next
  case (2 bb mm ch)
  have "Suc (empty_count (grid_upd bb (ch_r ch) (ch_c ch) 1)) = empty_count bb"
    using find_best_cell_Some(1-3) [OF 2(2)] by (intro empty_count_fill) simp_all
  then show ?case by (simp add: mlex_less)
next
  case (3 bb mm ch cand x xa xb xc xd y)
  have "xd = grid_upd bb (ch_r ch) (ch_c ch) xb"
    using 3 by (simp add: apply_set_def)
  moreover have "xb \<noteq> 0" unfolding 3 by (rule lsb_index_nonneg)
  ultimately have "empty_count xd = empty_count (grid_upd bb (ch_r ch) (ch_c ch) 1)"
    using empty_count_nonzero [of xb 1] by simp
  then show ?case by (simp add: mlex_iff)
next
  case (4 bb mm ch cand x xa xb xc xd y xe xf xg ya xh yb xi xj yc)
  have xb: "xb \<noteq> 0" unfolding 4 by (rule lsb_index_nonneg)
  have xd: "xd = grid_upd bb (ch_r ch) (ch_c ch) xb"
    using 4 by (simp add: apply_set_def)
  have "\<not> fst (solve_rec xd y)" using 4(8,9,11) by (metis fst_conv)
  then have "snd (solve_rec xd y) = (xd, y)" by (rule solve_restore(1))
  then have "xh = xd" using 4(8,9,10) by (metis fst_conv snd_conv)
  then have "xj = grid_upd bb (ch_r ch) (ch_c ch) 0"
    using 4(12,13) xb by (simp add: apply_clear_def xd grid_grid_upd grid_upd_twice)
  then have "empty_count (grid_upd xj (ch_r ch) (ch_c ch) 1)
      = empty_count (grid_upd bb (ch_r ch) (ch_c ch) 1)"
    by (simp add: grid_upd_twice)
  moreover have "unat xa < unat cand"
    unfolding 4 using 4(1) by (rule xor_lowbit_less)
  ultimately show ?case by (simp add: mlex_iff)
qed

termination solve_rec_depth
  by (rule solve_rec_depth_total)

declare solve_rec_depth.simps [simp del] solve_loop_depth.simps [simp del]

lemma solve_depth_bound:
  "solve_rec_depth bb mm \<le> empty_count bb"
  "solve_loop_depth bb mm ch cand \<le> Suc (empty_count (grid_upd bb (ch_r ch) (ch_c ch) 1))"
proof (induct bb mm and bb mm ch cand rule: solve_rec_depth_solve_loop_depth.induct)
  case (1 bb mm)
  show ?case
  proof (cases "any_empty bb")
    case False
    then show ?thesis by (simp add: solve_rec_depth.simps)
  next
    case True
    show ?thesis
    proof (cases "find_best_cell bb mm")
      case None
      then show ?thesis using True by (simp add: solve_rec_depth.simps)
    next
      case (Some ch)
      have "Suc (empty_count (grid_upd bb (ch_r ch) (ch_c ch) 1)) = empty_count bb"
        using find_best_cell_Some(1-3) [OF Some] by (intro empty_count_fill) simp_all
      then show ?thesis
        using True Some 1 [of ch] by (simp add: solve_rec_depth.simps)
    qed
  qed
next
  case (2 bb mm ch cand)
  show ?case
  proof (cases "cand = 0")
    case True
    then show ?thesis by (simp add: solve_loop_depth.simps)
  next
    case False
    define v where "v = lsb_index (cand AND - cand) + 1"
    define bb1 where "bb1 = grid_upd bb (ch_r ch) (ch_c ch) v"
    define mm1 where "mm1 = masks_or mm (ch_r ch) (ch_c ch) (digit_bit v)"
    obtain ok bb2 mm2 where res: "solve_rec bb1 mm1 = (ok, bb2, mm2)"
      by (cases "solve_rec bb1 mm1") auto
    have v: "v \<noteq> 0" unfolding v_def by (rule lsb_index_nonneg)
    have e1: "(bb1, mm1) = apply_set bb mm (ch_r ch) (ch_c ch) (lsb_index (cand AND - cand) + 1)"
      by (simp add: apply_set_def bb1_def mm1_def v_def)
    have "solve_rec_depth bb1 mm1 \<le> empty_count bb1"
      by (rule 2(1) [OF False refl refl refl refl e1])
    also have "empty_count bb1 = empty_count (grid_upd bb (ch_r ch) (ch_c ch) 1)"
      unfolding bb1_def using v by (intro empty_count_nonzero) simp_all
    finally have d: "Suc (solve_rec_depth bb1 mm1)
        \<le> Suc (empty_count (grid_upd bb (ch_r ch) (ch_c ch) 1))" by simp
    show ?thesis
    proof (cases ok)
      case True
      then show ?thesis
        using False res d
        by (simp add: solve_loop_depth.simps apply_set_def Let_def bb1_def [symmetric]
            mm1_def [symmetric] v_def [symmetric])
    next
      case nok: False
      have "snd (solve_rec bb1 mm1) = (bb1, mm1)"
        using res nok by (intro solve_restore(1)) simp
      then have bb2: "bb2 = bb1" using res by simp
      obtain bb3 mm3 where clr: "apply_clear bb2 mm2 (ch_r ch) (ch_c ch) = (bb3, mm3)"
        by (cases "apply_clear bb2 mm2 (ch_r ch) (ch_c ch)") auto
      have bb3: "bb3 = grid_upd bb (ch_r ch) (ch_c ch) 0"
        using clr v by (simp add: apply_clear_def bb2 bb1_def grid_grid_upd grid_upd_twice)
      have "solve_loop_depth bb3 mm3 ch (cand XOR (cand AND - cand))
          \<le> Suc (empty_count (grid_upd bb3 (ch_r ch) (ch_c ch) 1))"
        by (rule 2(2) [OF False refl refl refl refl e1 refl refl res [symmetric] refl nok refl
              clr [symmetric]])
      then have "solve_loop_depth bb3 mm3 ch (cand XOR (cand AND - cand))
          \<le> Suc (empty_count (grid_upd bb (ch_r ch) (ch_c ch) 1))"
        by (simp add: bb3 grid_upd_twice)
      then show ?thesis
        using False res clr d nok
        by (simp add: solve_loop_depth.simps apply_set_def Let_def bb1_def [symmetric]
            mm1_def [symmetric] v_def [symmetric])
    qed
  qed
qed

lemma count_call_fills:
  assumes "count_rec_count_loop_rel (Inr (bb, mm, ch, cand0, lim, tot0)) (Inl (bb, mm, lim))"
    and "count_rec_count_loop_rel (Inl (bb1, mm1, lim1)) (Inr (bb, mm, ch, cand, lim, tot))"
  shows "Suc (empty_count bb1) = empty_count bb"
proof -
  from assms(1) have f: "find_best_cell bb mm = Some ch"
    by (cases rule: count_rec_count_loop_rel.cases) auto
  from assms(2) have "bb1 = grid_upd bb (ch_r ch) (ch_c ch) (lsb_index (cand AND - cand) + 1)"
    by (cases rule: count_rec_count_loop_rel.cases) (auto simp: apply_set_def)
  then show ?thesis
    using find_best_cell_Some(1-3) [OF f] lsb_index_nonneg [of "cand AND - cand"]
    by (simp add: empty_count_fill)
qed

lemma solve_call_fills:
  assumes "solve_rec_solve_loop_rel (Inr (bb, mm, ch, cand0)) (Inl (bb, mm))"
    and "solve_rec_solve_loop_rel (Inl (bb1, mm1)) (Inr (bb, mm, ch, cand))"
  shows "Suc (empty_count bb1) = empty_count bb"
proof -
  from assms(1) have f: "find_best_cell bb mm = Some ch"
    by (cases rule: solve_rec_solve_loop_rel.cases) auto
  from assms(2) have "bb1 = grid_upd bb (ch_r ch) (ch_c ch) (lsb_index (cand AND - cand) + 1)"
    by (cases rule: solve_rec_solve_loop_rel.cases) (auto simp: apply_set_def)
  then show ?thesis
    using find_best_cell_Some(1-3) [OF f] lsb_index_nonneg [of "cand AND - cand"]
    by (simp add: empty_count_fill)
qed

lemma shuffle_loop_total: "All (shuffle_loop_dom :: nat \<times> rng \<times> 'a list \<Rightarrow> bool)"
  by lexicographic_order

lemma best_scan_total: "All best_scan_dom"
  by lexicographic_order

text \<open>
  Claim C8: the searches, the selection, the shuffle and the carving loop terminate on
  every input (placement is straight-line code), and the recursion is at most 81 deep.
  Every argument of \<open>count_rec\<close>, \<open>count_loop\<close>, \<open>solve_rec\<close>, \<open>solve_loop\<close>, \<open>best_scan\<close>,
  \<open>shuffle_loop\<close> and \<open>carve_loop\<close> is in the domain on which the recursion of the function
  is well-founded. In the call relation of the function definitions, a recursive call that
  the loop of a call of \<open>count_rec\<close> or \<open>solve_rec\<close> on the board \<open>bb\<close> makes from \<open>bb\<close> (the
  loop has restored \<open>bb\<close> whenever it goes on) is a call on a board with exactly one empty
  cell fewer. The nesting depth of the recursion is at most the number of empty cells of
  the board, which is at most 81.
\<close>

theorem search_terminates:
  "count_rec_count_loop_dom (Inl (bb, mm, lim))
   \<and> count_rec_count_loop_dom (Inr (bb, mm, ch, cand, lim, tot))
   \<and> solve_rec_solve_loop_dom (Inl (bb, mm))
   \<and> solve_rec_solve_loop_dom (Inr (bb, mm, ch, cand))
   \<and> best_scan_dom (bb, mm, cs, best, bc)
   \<and> shuffle_loop_dom (i, g, a :: nat list)
   \<and> carve_loop_dom (a, target, bb, clues, attempts, idx)
   \<and> (count_rec_count_loop_rel (Inr (bb, mm, ch, cand0, lim, tot0)) (Inl (bb, mm, lim))
        \<and> count_rec_count_loop_rel (Inl (bb1, mm1, lim1)) (Inr (bb, mm, ch, cand, lim, tot))
      \<longrightarrow> Suc (empty_count bb1) = empty_count bb)
   \<and> (solve_rec_solve_loop_rel (Inr (bb, mm, ch, cand0)) (Inl (bb, mm))
        \<and> solve_rec_solve_loop_rel (Inl (bb1, mm1)) (Inr (bb, mm, ch, cand))
      \<longrightarrow> Suc (empty_count bb1) = empty_count bb)
   \<and> count_rec_depth bb mm lim \<le> empty_count bb
   \<and> solve_rec_depth bb mm \<le> empty_count bb
   \<and> empty_count bb \<le> 81"
proof -
  have "count_rec_count_loop_dom (Inl (bb, mm, lim))"
    "count_rec_count_loop_dom (Inr (bb, mm, ch, cand, lim, tot))"
    using count_rec_total by blast+
  moreover have "solve_rec_solve_loop_dom (Inl (bb, mm))"
    "solve_rec_solve_loop_dom (Inr (bb, mm, ch, cand))"
    using solve_rec_total by blast+
  moreover have "best_scan_dom (bb, mm, cs, best, bc)" using best_scan_total by blast
  moreover have "shuffle_loop_dom (i, g, a)" using shuffle_loop_total by blast
  moreover have "carve_loop_dom (a, target, bb, clues, attempts, idx)"
    using carve_loop_total by blast
  moreover have "count_rec_count_loop_rel (Inr (bb, mm, ch, cand0, lim, tot0)) (Inl (bb, mm, lim))
        \<and> count_rec_count_loop_rel (Inl (bb1, mm1, lim1)) (Inr (bb, mm, ch, cand, lim, tot))
      \<longrightarrow> Suc (empty_count bb1) = empty_count bb"
    using count_call_fills by blast
  moreover have "solve_rec_solve_loop_rel (Inr (bb, mm, ch, cand0)) (Inl (bb, mm))
        \<and> solve_rec_solve_loop_rel (Inl (bb1, mm1)) (Inr (bb, mm, ch, cand))
      \<longrightarrow> Suc (empty_count bb1) = empty_count bb"
    using solve_call_fills by blast
  moreover note count_depth_bound(1) [of bb mm lim] solve_depth_bound(1) [of bb mm]
    empty_count_le [of bb]
  ultimately show ?thesis by (intro conjI)
qed

lemma twin_count_inner:
  "count_rec (grid_upd twin_board 0 0 9) (masks_or twin_masks 0 0 (digit_bit 9)) k
     = (0, grid_upd twin_board 0 0 9, masks_or twin_masks 0 0 (digit_bit 9))"
  by (simp add: count_rec.simps twin_after_any_empty twin_after_find)

lemma twin_clear:
  "apply_clear (grid_upd twin_board 0 0 9) (masks_or twin_masks 0 0 (digit_bit 9)) 0 0
      = (twin_board, twin_masks)"
proof -
  have e: "grid twin_board 0 0 = 0" by (simp add: twin_board_def board_of_def)
  have b: "bit (candidates_mask twin_masks 0 0) 8"
    by (simp add: twin_masks_eval candidates_mask_def used_mask_def ALL_bits_def box_index_def
        bit_numeral_word_iff)
  show ?thesis using set_clear_candidate [OF e b] by simp
qed

lemma twin_count_depth: "count_rec_depth twin_board twin_masks 2 = 1"
proof -
  have inner: "count_rec_depth (grid_upd twin_board 0 0 9)
      (masks_or twin_masks 0 0 (digit_bit 9)) 2 = 0"
    by (simp add: count_rec_depth.simps twin_after_any_empty twin_after_find)
  have "count_loop_depth twin_board twin_masks \<lparr>ch_r = 0, ch_c = 0, ch_cand = 256\<rparr> 256 2 0
      = max 1 (count_loop_depth twin_board twin_masks \<lparr>ch_r = 0, ch_c = 0, ch_cand = 256\<rparr> 0 2 0)"
    by (subst count_loop_depth.simps)
      (simp add: word256 apply_set_def inner twin_count_inner twin_clear)
  also have "\<dots> = 1" by (simp add: count_loop_depth.simps)
  finally show ?thesis
    by (simp add: count_rec_depth.simps twin_any_empty twin_find)
qed

lemma twin_solve_inner:
  "solve_rec (grid_upd twin_board 0 0 9) (masks_or twin_masks 0 0 (digit_bit 9))
      = (False, grid_upd twin_board 0 0 9, masks_or twin_masks 0 0 (digit_bit 9))"
  by (simp add: solve_rec.simps twin_after_any_empty twin_after_find)

lemma twin_solve_depth: "solve_rec_depth twin_board twin_masks = 1"
proof -
  have inner: "solve_rec_depth (grid_upd twin_board 0 0 9)
      (masks_or twin_masks 0 0 (digit_bit 9)) = 0"
    by (simp add: solve_rec_depth.simps twin_after_any_empty twin_after_find)
  have "solve_loop_depth twin_board twin_masks \<lparr>ch_r = 0, ch_c = 0, ch_cand = 256\<rparr> 256
      = max 1 (solve_loop_depth twin_board twin_masks \<lparr>ch_r = 0, ch_c = 0, ch_cand = 256\<rparr> 0)"
    by (subst solve_loop_depth.simps)
      (simp add: word256 apply_set_def inner twin_solve_inner twin_clear)
  also have "\<dots> = 1" by (simp add: solve_loop_depth.simps)
  finally show ?thesis
    by (simp add: solve_rec_depth.simps twin_any_empty twin_find)
qed

lemma twin_count_calls:
  "count_rec_count_loop_rel
     (Inr (twin_board, twin_masks, \<lparr>ch_r = 0, ch_c = 0, ch_cand = 256\<rparr>, 256, 2, 0))
     (Inl (twin_board, twin_masks, 2))"
  "count_rec_count_loop_rel
     (Inl (grid_upd twin_board 0 0 9, masks_or twin_masks 0 0 (digit_bit 9), 2))
     (Inr (twin_board, twin_masks, \<lparr>ch_r = 0, ch_c = 0, ch_cand = 256\<rparr>, 256, 2, 0))"
proof -
  show "count_rec_count_loop_rel
     (Inr (twin_board, twin_masks, \<lparr>ch_r = 0, ch_c = 0, ch_cand = 256\<rparr>, 256, 2, 0))
     (Inl (twin_board, twin_masks, 2))"
    using count_rec_count_loop_rel.intros(1) [of twin_board twin_masks
        "\<lparr>ch_r = 0, ch_c = 0, ch_cand = 256\<rparr>" 2] twin_any_empty twin_find by simp
  show "count_rec_count_loop_rel
     (Inl (grid_upd twin_board 0 0 9, masks_or twin_masks 0 0 (digit_bit 9), 2))
     (Inr (twin_board, twin_masks, \<lparr>ch_r = 0, ch_c = 0, ch_cand = 256\<rparr>, 256, 2, 0))"
    using count_rec_count_loop_rel.intros(2) [of 256 _ _ _ _ twin_board twin_masks
        "\<lparr>ch_r = 0, ch_c = 0, ch_cand = 256\<rparr>" "grid_upd twin_board 0 0 9"
        "masks_or twin_masks 0 0 (digit_bit 9)" 2 0, OF _ refl refl refl refl]
    by (simp add: word256 apply_set_def)
qed

lemma twin_solve_calls:
  "solve_rec_solve_loop_rel
     (Inr (twin_board, twin_masks, \<lparr>ch_r = 0, ch_c = 0, ch_cand = 256\<rparr>, 256))
     (Inl (twin_board, twin_masks))"
  "solve_rec_solve_loop_rel
     (Inl (grid_upd twin_board 0 0 9, masks_or twin_masks 0 0 (digit_bit 9)))
     (Inr (twin_board, twin_masks, \<lparr>ch_r = 0, ch_c = 0, ch_cand = 256\<rparr>, 256))"
proof -
  show "solve_rec_solve_loop_rel
     (Inr (twin_board, twin_masks, \<lparr>ch_r = 0, ch_c = 0, ch_cand = 256\<rparr>, 256))
     (Inl (twin_board, twin_masks))"
    using solve_rec_solve_loop_rel.intros(1) [of twin_board twin_masks
        "\<lparr>ch_r = 0, ch_c = 0, ch_cand = 256\<rparr>"] twin_any_empty twin_find by simp
  show "solve_rec_solve_loop_rel
     (Inl (grid_upd twin_board 0 0 9, masks_or twin_masks 0 0 (digit_bit 9)))
     (Inr (twin_board, twin_masks, \<lparr>ch_r = 0, ch_c = 0, ch_cand = 256\<rparr>, 256))"
    using solve_rec_solve_loop_rel.intros(2) [of 256 _ _ _ _ twin_board twin_masks
        "\<lparr>ch_r = 0, ch_c = 0, ch_cand = 256\<rparr>" "grid_upd twin_board 0 0 9"
        "masks_or twin_masks 0 0 (digit_bit 9)", OF _ refl refl refl refl]
    by (simp add: word256 apply_set_def)
qed

theorem search_terminates_witness:
  "count_rec_count_loop_rel
     (Inr (twin_board, twin_masks, \<lparr>ch_r = 0, ch_c = 0, ch_cand = 256\<rparr>, 256, 2, 0))
     (Inl (twin_board, twin_masks, 2))
   \<and> count_rec_count_loop_rel
     (Inl (grid_upd twin_board 0 0 9, masks_or twin_masks 0 0 (digit_bit 9), 2))
     (Inr (twin_board, twin_masks, \<lparr>ch_r = 0, ch_c = 0, ch_cand = 256\<rparr>, 256, 2, 0))
   \<and> solve_rec_solve_loop_rel
     (Inr (twin_board, twin_masks, \<lparr>ch_r = 0, ch_c = 0, ch_cand = 256\<rparr>, 256))
     (Inl (twin_board, twin_masks))
   \<and> solve_rec_solve_loop_rel
     (Inl (grid_upd twin_board 0 0 9, masks_or twin_masks 0 0 (digit_bit 9)))
     (Inr (twin_board, twin_masks, \<lparr>ch_r = 0, ch_c = 0, ch_cand = 256\<rparr>, 256))
   \<and> Suc (empty_count (grid_upd twin_board 0 0 9)) = empty_count twin_board
   \<and> count_rec_depth twin_board twin_masks 2 = 1
   \<and> solve_rec_depth twin_board twin_masks = 1
   \<and> 1 \<le> empty_count twin_board
   \<and> empty_count twin_board \<le> 81"
proof -
  note t = search_terminates [of twin_board twin_masks 2
      "\<lparr>ch_r = 0, ch_c = 0, ch_cand = 256\<rparr>" 256 0 "[]" None 0 0 "\<lambda>_. 0" "[]" 0 0 0 0
      256 0 "grid_upd twin_board 0 0 9" "masks_or twin_masks 0 0 (digit_bit 9)" 2]
  show ?thesis
    using t twin_count_calls twin_solve_calls twin_count_depth twin_solve_depth by simp
qed


section \<open>What the MRV selection returns\<close>

text \<open>The empty cells in scan order, the number of candidates of a cell, and the
  \<open>Choice\<close> that \<open>find_best_cell\<close> writes for a cell.\<close>

definition empty_cells :: "Board \<Rightarrow> (nat \<times> nat) list" where
  "empty_cells b = filter (\<lambda>p. grid b (fst p) (snd p) = 0) cells"

definition cand_count :: "Masks \<Rightarrow> nat \<times> nat \<Rightarrow> int" where
  "cand_count m p = popcount9 (candidates_mask m (fst p) (snd p))"

definition choice_at :: "Masks \<Rightarrow> nat \<times> nat \<Rightarrow> Choice" where
  "choice_at m p = \<lparr>ch_r = fst p, ch_c = snd p, ch_cand = candidates_mask m (fst p) (snd p)\<rparr>"

lemma popcount9_nonneg: "0 \<le> popcount9 x"
  by (simp add: popcount9_def)

lemma popcount9_candidates_le: "popcount9 (candidates_mask m r c) \<le> 9"
proof -
  have "filter (bit (candidates_mask m r c)) [0..<32]
      = filter (bit (candidates_mask m r c)) ([0..<9] @ [9..<32])"
    using upt_add_eq_append [of 0 9 23] by simp
  also have "\<dots> = filter (bit (candidates_mask m r c)) [0..<9]"
    by (simp add: bit_candidates_mask filter_empty_conv del: upt_Suc)
  finally have "length (filter (bit (candidates_mask m r c)) [0..<32]) \<le> length [0..<N]"
    using length_filter_le by metis
  then show ?thesis by (simp add: popcount9_def)
qed

lemma arg_min_list_Cons:
  fixes f :: "'a \<Rightarrow> int"
  shows "arg_min_list f (x # xs) = (if \<forall>y\<in>set xs. f x \<le> f y then x else arg_min_list f xs)"
proof (cases xs)
  case Nil
  then show ?thesis by simp
next
  case (Cons y ys)
  have "f (arg_min_list f xs) = Min (f ` set xs)"
    using Cons by (intro f_arg_min_list_f) simp
  moreover have "(\<forall>y\<in>set xs. f x \<le> f y) \<longleftrightarrow> f x \<le> Min (f ` set xs)"
    using Cons by (subst Min_ge_iff) auto
  ultimately show ?thesis using Cons by (simp add: Let_def)
qed

lemma best_scan_spec:
  assumes "2 \<le> bc"
  shows "best_scan b m cs best bc =
     (case find (\<lambda>p. cand_count m p \<le> 1) (filter (\<lambda>p. grid b (fst p) (snd p) = 0) cs) of
        Some p \<Rightarrow> if cand_count m p = 0 then None else Some (choice_at m p)
      | None \<Rightarrow>
          if \<forall>p\<in>set (filter (\<lambda>p. grid b (fst p) (snd p) = 0) cs). bc \<le> cand_count m p then best
          else Some (choice_at m (arg_min_list (cand_count m) (filter (\<lambda>p. grid b (fst p) (snd p) = 0) cs))))"
  using assms
proof (induction b m cs best bc rule: best_scan.induct)
  case (1 b m best bestCount)
  then show ?case by simp
next
  case (2 b m r c rest best bestCount)
  let ?E = "filter (\<lambda>p. grid b (fst p) (snd p) = 0) rest"
  let ?cnt = "cand_count m (r, c)"
  show ?case
  proof (cases "grid b r c = 0")
    case False
    then have E: "filter (\<lambda>p. grid b (fst p) (snd p) = 0) ((r, c) # rest) = ?E" by simp
    show ?thesis unfolding E using False 2 by simp
  next
    case True
    then have E: "filter (\<lambda>p. grid b (fst p) (snd p) = 0) ((r, c) # rest) = (r, c) # ?E"
      by simp
    have nonneg: "0 \<le> ?cnt" by (simp add: cand_count_def popcount9_nonneg)
    have cnt: "popcount9 (candidates_mask m r c) = ?cnt" by (simp add: cand_count_def)
    have ch: "\<lparr>ch_r = r, ch_c = c, ch_cand = candidates_mask m r c\<rparr> = choice_at m (r, c)"
      by (simp add: choice_at_def)
    consider "?cnt = 0" | "?cnt = 1" | "2 \<le> ?cnt" "?cnt < bestCount" | "2 \<le> ?cnt" "bestCount \<le> ?cnt"
      using nonneg by linarith
    then show ?thesis
    proof cases
      case 1
      then show ?thesis unfolding E using True by (simp add: cnt)
    next
      case 2
      then show ?thesis unfolding E using True "2.prems"
        by (simp add: cnt ch)
    next
      case 3
      have IH: "best_scan b m rest (Some (choice_at m (r, c))) ?cnt =
        (case find (\<lambda>p. cand_count m p \<le> 1) ?E of
           Some p \<Rightarrow> if cand_count m p = 0 then None else Some (choice_at m p)
         | None \<Rightarrow> if \<forall>p\<in>set ?E. ?cnt \<le> cand_count m p then Some (choice_at m (r, c))
                   else Some (choice_at m (arg_min_list (cand_count m) ?E)))"
        using "2.IH"(2) [OF _ refl refl] True 3 unfolding cnt ch by simp
      have "best_scan b m ((r, c) # rest) best bestCount
          = best_scan b m rest (Some (choice_at m (r, c))) ?cnt"
        using True 3 by (simp add: cnt ch Let_def)
      then show ?thesis
        unfolding E using 3 IH by (auto simp: arg_min_list_Cons split: option.splits)
    next
      case 4
      have IH: "best_scan b m rest best bestCount =
        (case find (\<lambda>p. cand_count m p \<le> 1) ?E of
           Some p \<Rightarrow> if cand_count m p = 0 then None else Some (choice_at m p)
         | None \<Rightarrow> if \<forall>p\<in>set ?E. bestCount \<le> cand_count m p then best
                   else Some (choice_at m (arg_min_list (cand_count m) ?E)))"
        using "2.IH"(3) [OF _ refl refl] True 4 "2.prems" unfolding cnt ch by simp
      have "best_scan b m ((r, c) # rest) best bestCount = best_scan b m rest best bestCount"
        using True 4 by (simp add: cnt ch Let_def)
      moreover have "(\<forall>p\<in>set ?E. bestCount \<le> cand_count m p) \<or>
          \<not> (\<forall>y\<in>set ?E. ?cnt \<le> cand_count m y)"
        using 4(2) by (meson order_trans)
      ultimately show ?thesis
        unfolding E using 4 IH by (auto simp: arg_min_list_Cons split: option.splits)
    qed
  qed
qed

text \<open>
  Claim C6, as the code has it. \<open>find_best_cell\<close> looks at the empty cells in row-major
  order. It stops at the first one that has at most one candidate: with no candidate there
  it returns no choice, with exactly one it returns that cell. When every empty cell has two
  candidates or more it returns the first cell of the least candidate count, and no choice
  when no cell is empty. So an empty cell without candidates makes the selection fail only
  when no cell with a single candidate comes before it in scan order.
\<close>

theorem find_best_cell_spec:
  "find_best_cell b m =
     (case find (\<lambda>p. cand_count m p \<le> 1) (empty_cells b) of
        Some p \<Rightarrow> if cand_count m p = 0 then None else Some (choice_at m p)
      | None \<Rightarrow> if empty_cells b = [] then None
                else Some (choice_at m (arg_min_list (cand_count m) (empty_cells b))))"
proof -
  have "(\<forall>p\<in>set (empty_cells b). 10 \<le> cand_count m p) \<longleftrightarrow> empty_cells b = []"
  proof
    assume a: "\<forall>p\<in>set (empty_cells b). 10 \<le> cand_count m p"
    show "empty_cells b = []"
    proof (rule ccontr)
      assume "empty_cells b \<noteq> []"
      then obtain p where "p \<in> set (empty_cells b)" by (cases "empty_cells b") auto
      with a have "10 \<le> cand_count m p" by blast
      then show False
        using popcount9_candidates_le [of m "fst p" "snd p"] by (simp add: cand_count_def)
    qed
  qed simp
  then show ?thesis
    unfolding find_best_cell_def empty_cells_def
    by (subst best_scan_spec) (simp_all add: empty_cells_def)
qed

text \<open>
  The claim as the specification words it (the selection fails if any empty cell has zero
  candidates) does not hold: on \<open>shadow_board\<close>, with the masks of \<open>masks_init\<close>, the empty
  cell \<open>(4,4)\<close> has no candidate, and the selection returns the cell \<open>(0,0)\<close>, whose
  single candidate ends the scan before \<open>(4,4)\<close> is looked at.
\<close>

theorem find_best_cell_counterexample:
  "grid shadow_board 4 4 = 0
   \<and> popcount9 (candidates_mask (masks_init fresh_masks shadow_board) 4 4) = 0
   \<and> find_best_cell shadow_board (masks_init fresh_masks shadow_board)
       = Some \<lparr>ch_r = 0, ch_c = 0, ch_cand = 256\<rparr>"
proof -
  have "find_best_cell shadow_board (masks_init fresh_masks shadow_board)
       = Some \<lparr>ch_r = 0, ch_c = 0, ch_cand = 256\<rparr>"
    unfolding find_best_cell_def
    by (subst cells_0) (simp add: shadow_board_masks popcount9_256, simp add: shadow_board_def board_of_def)
  moreover have "grid shadow_board 4 4 = 0"
    by (simp add: shadow_board_def board_of_def)
  ultimately show ?thesis by (simp add: shadow_board_masks popcount9_0)
qed


section \<open>Well-formed boards and the mask invariant\<close>

text \<open>
  A well-formed board has a digit 0..9 in each of its 81 cells (0 for an empty cell; the
  specification admits 0..9 and the program places 1..9). \<open>masks_ok\<close> is the invariant
  of the constraint state: bit \<open>n\<close> of a row, column or block mask is set exactly when the
  digit \<open>n+1\<close> occurs in that row, column or block.
\<close>

definition wf_board :: "Board \<Rightarrow> bool" where
  "wf_board b \<longleftrightarrow> (\<forall>r<N. \<forall>c<N. 0 \<le> grid b r c \<and> grid b r c \<le> 9)"

definition masks_ok :: "Board \<Rightarrow> Masks \<Rightarrow> bool" where
  "masks_ok b m \<longleftrightarrow>
     (\<forall>i<N. \<forall>n.
        (bit (row m i) n \<longleftrightarrow> (\<exists>c<N. grid b i c = int n + 1)) \<and>
        (bit (col m i) n \<longleftrightarrow> (\<exists>r<N. grid b r i = int n + 1)) \<and>
        (bit (box m i) n \<longleftrightarrow> (\<exists>r<N. \<exists>c<N. box_index r c = i \<and> grid b r c = int n + 1)))"

lemma box_index_less: "r < N \<Longrightarrow> c < N \<Longrightarrow> box_index r c < N"
proof -
  assume "r < N" "c < N"
  then have "r div BOX \<le> 2" "c div BOX \<le> 2" by simp_all
  then show ?thesis unfolding box_index_def by linarith
qed

lemma fold_product:
  "fold (\<lambda>i. fold (f i) ys) xs = fold (\<lambda>(i, j). f i j) (List.product xs ys)"
proof (induction xs)
  case Nil
  then show ?case by simp
next
  case (Cons x xs)
  have "fold (\<lambda>(i, j). f i j) (map (Pair x) ys) = fold (f x) ys"
    by (simp add: fold_map comp_def)
  then show ?case using Cons by (simp add: comp_def)
qed

text \<open>The body of the nested loop of \<open>masks_init\<close>, for one cell.\<close>

definition init_step :: "Board \<Rightarrow> nat \<times> nat \<Rightarrow> Masks \<Rightarrow> Masks" where
  "init_step b = (\<lambda>(i, j) m. let v = grid b i j
                 in if v \<noteq> 0 then masks_or m i j (digit_bit v) else m)"

lemma bit_init_step:
  "bit (row (init_step b (r, c) m) i) n \<longleftrightarrow>
     bit (row m i) n \<or> (i = r \<and> grid b r c \<noteq> 0 \<and> n = nat (grid b r c - 1) \<and> n < 32)"
  "bit (col (init_step b (r, c) m) i) n \<longleftrightarrow>
     bit (col m i) n \<or> (i = c \<and> grid b r c \<noteq> 0 \<and> n = nat (grid b r c - 1) \<and> n < 32)"
  "bit (box (init_step b (r, c) m) i) n \<longleftrightarrow>
     bit (box m i) n \<or> (i = box_index r c \<and> grid b r c \<noteq> 0 \<and> n = nat (grid b r c - 1)
        \<and> n < 32)"
  by (auto simp: init_step_def Let_def masks_or_def bit_or_digit)

lemma fold_init_step:
  "bit (row (fold (init_step b) cs m) i) n \<longleftrightarrow>
     bit (row m i) n \<or> (\<exists>c. (i, c) \<in> set cs \<and> grid b i c \<noteq> 0 \<and> n = nat (grid b i c - 1) \<and> n < 32)"
  "bit (col (fold (init_step b) cs m) i) n \<longleftrightarrow>
     bit (col m i) n \<or> (\<exists>r. (r, i) \<in> set cs \<and> grid b r i \<noteq> 0 \<and> n = nat (grid b r i - 1) \<and> n < 32)"
  "bit (box (fold (init_step b) cs m) i) n \<longleftrightarrow>
     bit (box m i) n \<or> (\<exists>r c. (r, c) \<in> set cs \<and> box_index r c = i \<and> grid b r c \<noteq> 0
        \<and> n = nat (grid b r c - 1) \<and> n < 32)"
proof (induction cs arbitrary: m)
  case Nil
  case 1 show ?case by simp
  case 2 show ?case by simp
  case 3 show ?case by simp
next
  case (Cons p cs)
  obtain r c where p: "p = (r, c)" by (cases p)
  case 1 show ?case
    unfolding p by (simp add: Cons.IH(1) bit_init_step) blast
  case 2 show ?case
    unfolding p by (simp add: Cons.IH(2) bit_init_step) blast
  case 3 show ?case
    unfolding p by (simp add: Cons.IH(3) bit_init_step) blast
qed

lemma fold_zero:
  "row (fold (\<lambda>i m. m\<lparr>row := (row m)(i := 0), col := (col m)(i := 0),
                       box := (box m)(i := 0)\<rparr>) [0..<n] m) i = (if i < n then 0 else row m i)"
  "col (fold (\<lambda>i m. m\<lparr>row := (row m)(i := 0), col := (col m)(i := 0),
                       box := (box m)(i := 0)\<rparr>) [0..<n] m) i = (if i < n then 0 else col m i)"
  "box (fold (\<lambda>i m. m\<lparr>row := (row m)(i := 0), col := (col m)(i := 0),
                       box := (box m)(i := 0)\<rparr>) [0..<n] m) i = (if i < n then 0 else box m i)"
  by (induction n) auto

lemma masks_init_fold:
  "masks_init m b = fold (init_step b) cells
     (fold (\<lambda>i m. m\<lparr>row := (row m)(i := 0), col := (col m)(i := 0),
                     box := (box m)(i := 0)\<rparr>) [0..<N] m)"
  unfolding masks_init_def Let_def fold_product cells_def init_step_def ..

lemma digit_index:
  assumes "0 \<le> v" "v \<le> 9"
  shows "v \<noteq> 0 \<and> n = nat (v - 1) \<and> n < 32 \<longleftrightarrow> v = int n + 1"
  using assms by auto

lemma masks_init_ok:
  assumes "wf_board b"
  shows "masks_ok b (masks_init m b)"
  unfolding masks_ok_def masks_init_fold
proof (intro allI impI conjI)
  fix i n assume i: "i < N"
  have wf: "\<And>r c. r < N \<Longrightarrow> c < N \<Longrightarrow> 0 \<le> grid b r c \<and> grid b r c \<le> 9"
    using assms by (simp add: wf_board_def)
  show "bit (row (fold (init_step b) cells (fold (\<lambda>i m. m\<lparr>row := (row m)(i := 0),
          col := (col m)(i := 0), box := (box m)(i := 0)\<rparr>) [0..<N] m)) i) n
        \<longleftrightarrow> (\<exists>c<N. grid b i c = int n + 1)"
    using i wf digit_index by (simp add: fold_init_step fold_zero set_cells) blast
  show "bit (col (fold (init_step b) cells (fold (\<lambda>i m. m\<lparr>row := (row m)(i := 0),
          col := (col m)(i := 0), box := (box m)(i := 0)\<rparr>) [0..<N] m)) i) n
        \<longleftrightarrow> (\<exists>r<N. grid b r i = int n + 1)"
    using i wf digit_index by (simp add: fold_init_step fold_zero set_cells) blast
  show "bit (box (fold (init_step b) cells (fold (\<lambda>i m. m\<lparr>row := (row m)(i := 0),
          col := (col m)(i := 0), box := (box m)(i := 0)\<rparr>) [0..<N] m)) i) n
        \<longleftrightarrow> (\<exists>r<N. \<exists>c<N. box_index r c = i \<and> grid b r c = int n + 1)"
    using i wf digit_index by (simp add: fold_init_step fold_zero set_cells) blast
qed


text \<open>
  \<open>sees r c r' c'\<close>: the cell \<open>(r',c')\<close> of the grid is another cell of the row, the column
  or the block of \<open>(r,c)\<close>. \<open>sole b r c\<close>: no such cell holds the value of \<open>(r,c)\<close>.
\<close>

definition sees :: "nat \<Rightarrow> nat \<Rightarrow> nat \<Rightarrow> nat \<Rightarrow> bool" where
  "sees r c r' c' \<longleftrightarrow>
     r' < N \<and> c' < N \<and> (r', c') \<noteq> (r, c) \<and> (r' = r \<or> c' = c \<or> box_index r' c' = box_index r c)"

definition sole :: "Board \<Rightarrow> nat \<Rightarrow> nat \<Rightarrow> bool" where
  "sole b r c \<longleftrightarrow> (\<forall>r' c'. sees r c r' c' \<longrightarrow> grid b r' c' \<noteq> grid b r c)"

lemma masks_okD:
  assumes "masks_ok b m" "i < N"
  shows "bit (row m i) n \<longleftrightarrow> (\<exists>c<N. grid b i c = int n + 1)"
    and "bit (col m i) n \<longleftrightarrow> (\<exists>r<N. grid b r i = int n + 1)"
    and "bit (box m i) n \<longleftrightarrow> (\<exists>r<N. \<exists>c<N. box_index r c = i \<and> grid b r c = int n + 1)"
  using assms unfolding masks_ok_def by blast+

lemma digit_index': "1 \<le> v \<Longrightarrow> v \<le> 9 \<Longrightarrow> n = nat (v - 1) \<and> n < 32 \<longleftrightarrow> v = int n + 1"
  by auto

lemma wf_board_grid_upd:
  "wf_board b \<Longrightarrow> 0 \<le> v \<Longrightarrow> v \<le> 9 \<Longrightarrow> wf_board (grid_upd b r c v)"
  by (simp add: wf_board_def grid_grid_upd)

lemma bit_masks_or:
  "bit (row (masks_or m r c (digit_bit v)) i) n \<longleftrightarrow>
     bit (row m i) n \<or> (i = r \<and> n = nat (v - 1) \<and> n < 32)"
  "bit (col (masks_or m r c (digit_bit v)) i) n \<longleftrightarrow>
     bit (col m i) n \<or> (i = c \<and> n = nat (v - 1) \<and> n < 32)"
  "bit (box (masks_or m r c (digit_bit v)) i) n \<longleftrightarrow>
     bit (box m i) n \<or> (i = box_index r c \<and> n = nat (v - 1) \<and> n < 32)"
  by (auto simp: masks_or_def bit_or_digit)

lemma bit_masks_andnot:
  "bit (row (masks_andnot m r c (digit_bit v)) i) n \<longleftrightarrow>
     bit (row m i) n \<and> \<not> (i = r \<and> n = nat (v - 1))"
  "bit (col (masks_andnot m r c (digit_bit v)) i) n \<longleftrightarrow>
     bit (col m i) n \<and> \<not> (i = c \<and> n = nat (v - 1))"
  "bit (box (masks_andnot m r c (digit_bit v)) i) n \<longleftrightarrow>
     bit (box m i) n \<and> \<not> (i = box_index r c \<and> n = nat (v - 1))"
  by (auto simp: masks_andnot_def bit_andnot_digit)

lemma masks_ok_set:
  assumes ok: "masks_ok b m" and rc: "r < N" "c < N" and e: "grid b r c = 0"
    and v: "1 \<le> v" "v \<le> 9"
  shows "masks_ok (grid_upd b r c v) (masks_or m r c (digit_bit v))"
  unfolding masks_ok_def
proof (intro allI impI conjI)
  fix i n assume i: "i < N"
  note D = masks_okD [OF ok i, of n]
  have dv: "n = nat (v - 1) \<and> n < 32 \<longleftrightarrow> v = int n + 1" using v by auto
  have z: "grid b r c \<noteq> int n + 1" using e by simp
  show "bit (row (masks_or m r c (digit_bit v)) i) n
        \<longleftrightarrow> (\<exists>c'<N. grid (grid_upd b r c v) i c' = int n + 1)"
    unfolding bit_masks_or D dv grid_grid_upd using rc z by (cases "i = r") auto
  show "bit (col (masks_or m r c (digit_bit v)) i) n
        \<longleftrightarrow> (\<exists>r'<N. grid (grid_upd b r c v) r' i = int n + 1)"
    unfolding bit_masks_or D dv grid_grid_upd using rc z by (cases "i = c") auto
  show "bit (box (masks_or m r c (digit_bit v)) i) n
        \<longleftrightarrow> (\<exists>r'<N. \<exists>c'<N. box_index r' c' = i \<and> grid (grid_upd b r c v) r' c' = int n + 1)"
    unfolding bit_masks_or D dv grid_grid_upd using rc z by (cases "i = box_index r c") auto
qed

lemma masks_ok_clear:
  assumes ok: "masks_ok b m" and rc: "r < N" "c < N" and v: "1 \<le> grid b r c" "grid b r c \<le> 9"
    and sole: "sole b r c"
  shows "masks_ok (grid_upd b r c 0) (masks_andnot m r c (digit_bit (grid b r c)))"
  unfolding masks_ok_def
proof (intro allI impI conjI)
  fix i n assume i: "i < N"
  note D = masks_okD [OF ok i, of n]
  have s: "\<And>r' c'. r' < N \<Longrightarrow> c' < N \<Longrightarrow> (r', c') \<noteq> (r, c) \<Longrightarrow>
      r' = r \<or> c' = c \<or> box_index r' c' = box_index r c \<Longrightarrow> grid b r' c' \<noteq> grid b r c"
    using sole unfolding sole_def sees_def by blast
  have n: "n = nat (grid b r c - 1) \<longleftrightarrow> grid b r c = int n + 1"
    using v by auto
  show "bit (row (masks_andnot m r c (digit_bit (grid b r c))) i) n
        \<longleftrightarrow> (\<exists>c'<N. grid (grid_upd b r c 0) i c' = int n + 1)"
    unfolding bit_masks_andnot D n grid_grid_upd using rc s [of r]
    by (cases "i = r") (auto, metis+)
  show "bit (col (masks_andnot m r c (digit_bit (grid b r c))) i) n
        \<longleftrightarrow> (\<exists>r'<N. grid (grid_upd b r c 0) r' i = int n + 1)"
    unfolding bit_masks_andnot D n grid_grid_upd using rc s [of _ c]
    by (cases "i = c") (auto, metis+)
  show "bit (box (masks_andnot m r c (digit_bit (grid b r c))) i) n
        \<longleftrightarrow> (\<exists>r'<N. \<exists>c'<N. box_index r' c' = i \<and> grid (grid_upd b r c 0) r' c' = int n + 1)"
    unfolding bit_masks_andnot D n grid_grid_upd using rc s
    by (cases "i = box_index r c") (auto, metis+)
qed

section \<open>Legality\<close>

text \<open>
  \<open>is_legal\<close> runs the same inner loop over each row, each column and each block:
  \<^verbatim>\<open>if(!v) continue; int bit=1<<(v-1); if(used & bit) return false; used |= bit;\<close>
  with \<open>used\<close> starting at 0. \<open>legal_scan\<close> is this loop over the values of one unit
  (\<open>used\<close> and \<open>bit\<close> are C \<open>int\<close>s; for the digits 1..9 no shift overflows), and
  \<open>is_legal\<close> is true when no unit makes it return false.
\<close>

fun legal_scan :: "int list \<Rightarrow> int \<Rightarrow> bool" where
  "legal_scan [] used = True"
| "legal_scan (v # vs) used =
     (if v = 0 then legal_scan vs used
      else let d = push_bit (nat (v - 1)) 1
           in if used AND d \<noteq> 0 then False
              else legal_scan vs (used OR d))"

definition is_legal :: "Board \<Rightarrow> bool" where
  "is_legal b \<longleftrightarrow>
     list_all (\<lambda>r. legal_scan (map (\<lambda>c. grid b r c) [0..<N]) 0) [0..<N] \<and>
     list_all (\<lambda>c. legal_scan (map (\<lambda>r. grid b r c) [0..<N]) 0) [0..<N] \<and>
     list_all (\<lambda>br. list_all (\<lambda>bc.
         legal_scan (concat (map (\<lambda>dr. map (\<lambda>dc. grid b (br + dr) (bc + dc)) [0..<3]) [0..<3])) 0)
       [0, 3, 6]) [0, 3, 6]"

text \<open>The rule itself: no filled cell sees its own value in its row, column or block.\<close>

definition legal :: "Board \<Rightarrow> bool" where
  "legal b \<longleftrightarrow> (\<forall>r<N. \<forall>c<N. grid b r c \<noteq> 0 \<longrightarrow> sole b r c)"

lemma legal_scan_iff:
  assumes "\<forall>v\<in>set vs. 0 \<le> v"
  shows "legal_scan vs used \<longleftrightarrow>
     distinct (filter (\<lambda>v. v \<noteq> 0) vs) \<and> (\<forall>v\<in>set vs. v \<noteq> 0 \<longrightarrow> \<not> bit used (nat (v - 1)))"
  using assms
proof (induction vs arbitrary: used)
  case Nil
  then show ?case by simp
next
  case (Cons v vs)
  show ?case
  proof (cases "v = 0")
    case True
    then show ?thesis using Cons by simp
  next
    case False
    have inj: "\<And>w. w \<in> set vs \<Longrightarrow> w \<noteq> 0 \<Longrightarrow> nat (w - 1) = nat (v - 1) \<longleftrightarrow> w = v"
      using Cons.prems False by force
    have "used AND push_bit (nat (v - 1)) 1 \<noteq> 0 \<longleftrightarrow> bit used (nat (v - 1))"
      by (simp add: bit_iff_and_push_bit_not_eq_0)
    moreover have "legal_scan vs (used OR push_bit (nat (v - 1)) 1) \<longleftrightarrow>
       distinct (filter (\<lambda>v. v \<noteq> 0) vs) \<and>
       (\<forall>w\<in>set vs. w \<noteq> 0 \<longrightarrow> \<not> bit (used OR push_bit (nat (v - 1)) 1) (nat (w - 1)))"
      using Cons by simp
    ultimately show ?thesis
      using False inj by (auto simp: Let_def bit_or_iff bit_exp_iff)
  qed
qed

lemma distinct_nonzero_map:
  assumes "distinct ps"
  shows "distinct (filter (\<lambda>v. v \<noteq> 0) (map f ps)) \<longleftrightarrow>
     (\<forall>p\<in>set ps. \<forall>q\<in>set ps. p \<noteq> q \<and> f p \<noteq> (0::int) \<longrightarrow> f p \<noteq> f q)"
  using assms
proof (induction ps)
  case Nil
  then show ?case by simp
next
  case (Cons p ps)
  then have IH: "distinct (filter (\<lambda>v. v \<noteq> 0) (map f ps)) \<longleftrightarrow>
     (\<forall>x\<in>set ps. \<forall>q\<in>set ps. x \<noteq> q \<and> f x \<noteq> 0 \<longrightarrow> f x \<noteq> f q)"
    and p: "p \<notin> set ps" by simp_all
  show ?case
  proof (cases "f p = 0")
    case True
    have "(\<forall>x\<in>set (p # ps). \<forall>q\<in>set (p # ps). x \<noteq> q \<and> f x \<noteq> 0 \<longrightarrow> f x \<noteq> f q) \<longleftrightarrow>
          (\<forall>x\<in>set ps. \<forall>q\<in>set ps. x \<noteq> q \<and> f x \<noteq> 0 \<longrightarrow> f x \<noteq> f q)"
      using True p by auto
    then show ?thesis using True IH by simp
  next
    case False
    have "(\<forall>x\<in>set (p # ps). \<forall>q\<in>set (p # ps). x \<noteq> q \<and> f x \<noteq> 0 \<longrightarrow> f x \<noteq> f q) \<longleftrightarrow>
          (\<forall>q\<in>set ps. f p \<noteq> f q) \<and>
          (\<forall>x\<in>set ps. \<forall>q\<in>set ps. x \<noteq> q \<and> f x \<noteq> 0 \<longrightarrow> f x \<noteq> f q)"
    proof (intro iffI conjI ballI impI)
      fix q assume "\<forall>x\<in>set (p # ps). \<forall>q\<in>set (p # ps). x \<noteq> q \<and> f x \<noteq> 0 \<longrightarrow> f x \<noteq> f q"
        and "q \<in> set ps"
      then show "f p \<noteq> f q" using False p by (metis list.set_intros(1,2))
    next
      fix x q assume "\<forall>x\<in>set (p # ps). \<forall>q\<in>set (p # ps). x \<noteq> q \<and> f x \<noteq> 0 \<longrightarrow> f x \<noteq> f q"
        and "x \<in> set ps" "q \<in> set ps" "x \<noteq> q \<and> f x \<noteq> 0"
      then show "f x \<noteq> f q" by (metis list.set_intros(2))
    next
      fix x q assume a: "(\<forall>q\<in>set ps. f p \<noteq> f q) \<and>
          (\<forall>x\<in>set ps. \<forall>q\<in>set ps. x \<noteq> q \<and> f x \<noteq> 0 \<longrightarrow> f x \<noteq> f q)"
        and "x \<in> set (p # ps)" "q \<in> set (p # ps)" "x \<noteq> q \<and> f x \<noteq> 0"
      then show "f x \<noteq> f q" by (metis set_ConsD)
    qed
    moreover have "f p \<notin> set (filter (\<lambda>v. v \<noteq> 0) (map f ps)) \<longleftrightarrow> (\<forall>q\<in>set ps. f p \<noteq> f q)"
      using False by auto
    ultimately show ?thesis using False IH by simp
  qed
qed

lemma unit_scan:
  assumes "distinct ps" "\<forall>p\<in>set ps. 0 \<le> f p"
  shows "legal_scan (map f ps) 0 \<longleftrightarrow>
     (\<forall>p\<in>set ps. \<forall>q\<in>set ps. p \<noteq> q \<and> f p \<noteq> 0 \<longrightarrow> f p \<noteq> f q)"
  using assms by (subst legal_scan_iff) (auto simp: distinct_nonzero_map)


lemma concat_map_product:
  "concat (map (\<lambda>x. map (f x) ys) xs) = map (\<lambda>(x, y). f x y) (List.product xs ys)"
  by (induction xs) simp_all


lemma box_index_eq_iff:
  assumes "c < N" "c' < N"
  shows "box_index r c = box_index r' c' \<longleftrightarrow> r div BOX = r' div BOX \<and> c div BOX = c' div BOX"
proof -
  define x y a a' where "x = c div BOX" and "y = c' div BOX" and "a = r div BOX" and "a' = r' div BOX"
  have "x < 3" "y < 3" using assms by (simp_all add: x_def y_def)
  then have "a * 3 + x = a' * 3 + y \<longleftrightarrow> a = a' \<and> x = y" by arith
  then show ?thesis unfolding box_index_def x_def y_def a_def a'_def .
qed
lemma box_offsets:
  fixes d :: nat
  assumes "d < BOX"
  shows "d div BOX = 0" "(BOX + d) div BOX = 1" "(6 + d) div BOX = 2"
  using assms by simp_all

definition rows_ok :: "Board \<Rightarrow> bool" where
  "rows_ok b \<longleftrightarrow> (\<forall>r<N. \<forall>c<N. \<forall>c'<N. c \<noteq> c' \<and> grid b r c \<noteq> 0 \<longrightarrow> grid b r c \<noteq> grid b r c')"

definition cols_ok :: "Board \<Rightarrow> bool" where
  "cols_ok b \<longleftrightarrow> (\<forall>c<N. \<forall>r<N. \<forall>r'<N. r \<noteq> r' \<and> grid b r c \<noteq> 0 \<longrightarrow> grid b r c \<noteq> grid b r' c)"

definition boxes_ok :: "Board \<Rightarrow> bool" where
  "boxes_ok b \<longleftrightarrow> (\<forall>br\<in>{0, 3, 6}. \<forall>bc\<in>{0, 3, 6}. \<forall>dr<3. \<forall>dc<3. \<forall>dr'<3. \<forall>dc'<3.
      (dr, dc) \<noteq> (dr', dc') \<and> grid b (br + dr) (bc + dc) \<noteq> 0 \<longrightarrow>
        grid b (br + dr) (bc + dc) \<noteq> grid b (br + dr') (bc + dc'))"

lemma scan_row:
  assumes "wf_board b" "r < N"
  shows "legal_scan (map (\<lambda>c. grid b r c) [0..<N]) 0 \<longleftrightarrow>
      (\<forall>c<N. \<forall>c'<N. c \<noteq> c' \<and> grid b r c \<noteq> 0 \<longrightarrow> grid b r c \<noteq> grid b r c')"
proof -
  have "\<forall>p\<in>set [0..<N]. 0 \<le> grid b r p"
    using assms by (simp add: wf_board_def)
  then show ?thesis
    by (subst unit_scan) (simp_all add: Ball_def)
qed

lemma scan_col:
  assumes "wf_board b" "c < N"
  shows "legal_scan (map (\<lambda>r. grid b r c) [0..<N]) 0 \<longleftrightarrow>
      (\<forall>r<N. \<forall>r'<N. r \<noteq> r' \<and> grid b r c \<noteq> 0 \<longrightarrow> grid b r c \<noteq> grid b r' c)"
proof -
  have "\<forall>p\<in>set [0..<N]. 0 \<le> grid b p c"
    using assms by (simp add: wf_board_def)
  then show ?thesis
    by (subst unit_scan) (simp_all add: Ball_def)
qed

lemma scan_box:
  assumes "wf_board b" "br \<in> {0, 3, 6}" "bc \<in> {0, 3, 6}"
  shows "legal_scan (concat (map (\<lambda>dr. map (\<lambda>dc. grid b (br + dr) (bc + dc)) [0..<3]) [0..<3])) 0
      \<longleftrightarrow> (\<forall>dr<3. \<forall>dc<3. \<forall>dr'<3. \<forall>dc'<3.
      (dr, dc) \<noteq> (dr', dc') \<and> grid b (br + dr) (bc + dc) \<noteq> 0 \<longrightarrow>
        grid b (br + dr) (bc + dc) \<noteq> grid b (br + dr') (bc + dc'))"
proof -
  have wf: "\<And>r c. r < N \<Longrightarrow> c < N \<Longrightarrow> 0 \<le> grid b r c"
    using assms by (simp add: wf_board_def)
  have "\<forall>p\<in>set (List.product [0..<3] [0..<3]). 0 \<le> (\<lambda>(dr, dc). grid b (br + dr) (bc + dc)) p"
    using assms(2,3) by (auto intro!: wf)
  then have "legal_scan (map (\<lambda>(dr, dc). grid b (br + dr) (bc + dc)) (List.product [0..<3] [0..<3])) 0
     \<longleftrightarrow> (\<forall>p\<in>set (List.product [0..<3] [0..<3]). \<forall>q\<in>set (List.product [0..<3] [0..<3]).
          p \<noteq> q \<and> (\<lambda>(dr, dc). grid b (br + dr) (bc + dc)) p \<noteq> 0 \<longrightarrow>
          (\<lambda>(dr, dc). grid b (br + dr) (bc + dc)) p \<noteq> (\<lambda>(dr, dc). grid b (br + dr) (bc + dc)) q)"
    by (intro unit_scan) (simp_all add: distinct_product)
  also have "\<dots> \<longleftrightarrow> (\<forall>dr<3. \<forall>dc<3. \<forall>dr'<3. \<forall>dc'<3.
      (dr, dc) \<noteq> (dr', dc') \<and> grid b (br + dr) (bc + dc) \<noteq> 0 \<longrightarrow>
        grid b (br + dr) (bc + dc) \<noteq> grid b (br + dr') (bc + dc'))"
    by (simp add: Ball_def del: upt_Suc) blast
  finally show ?thesis unfolding concat_map_product .
qed

lemma is_legal_units:
  assumes "wf_board b"
  shows "is_legal b \<longleftrightarrow> rows_ok b \<and> cols_ok b \<and> boxes_ok b"
proof -
  have ball_upt: "\<And>P. (\<forall>r\<in>{0..<N}. P r) \<longleftrightarrow> (\<forall>r<N. P r)" by auto
  have R: "(\<forall>r<N. legal_scan (map (\<lambda>c. grid b r c) [0..<N]) 0) \<longleftrightarrow> rows_ok b"
    unfolding rows_ok_def using scan_row [OF assms] by blast
  have C: "(\<forall>c<N. legal_scan (map (\<lambda>r. grid b r c) [0..<N]) 0) \<longleftrightarrow> cols_ok b"
    unfolding cols_ok_def using scan_col [OF assms] by blast
  have B: "(\<forall>br\<in>{0, 3, 6}. \<forall>bc\<in>{0, 3, 6}.
         legal_scan (concat (map (\<lambda>dr. map (\<lambda>dc. grid b (br + dr) (bc + dc)) [0..<3]) [0..<3])) 0)
       \<longleftrightarrow> boxes_ok b"
    unfolding boxes_ok_def
    apply (rule ball_cong [OF refl])
    apply (rule ball_cong [OF refl])
    apply (rule scan_box [OF assms])
     apply assumption+
    done
  show ?thesis
    unfolding is_legal_def list_all_iff set_upt list.set ball_upt R C B ..
qed



lemma legal_units: "legal b \<longleftrightarrow> rows_ok b \<and> cols_ok b \<and> boxes_ok b"
proof (intro iffI conjI)
  assume l: "legal b"
  have s: "\<And>r c r' c'. r < N \<Longrightarrow> c < N \<Longrightarrow> grid b r c \<noteq> 0 \<Longrightarrow> sees r c r' c' \<Longrightarrow>
      grid b r c \<noteq> grid b r' c'"
    using l unfolding legal_def sole_def by metis
  show "rows_ok b" unfolding rows_ok_def
    by (intro allI impI s) (auto simp: sees_def)
  show "cols_ok b" unfolding cols_ok_def
    by (intro allI impI s) (auto simp: sees_def)
  show "boxes_ok b" unfolding boxes_ok_def
    by (intro allI ballI impI s) (auto simp: sees_def box_index_def box_offsets)
next
  assume u: "rows_ok b \<and> cols_ok b \<and> boxes_ok b"
  show "legal b" unfolding legal_def sole_def
  proof (intro allI impI)
    fix r c r' c' assume rc: "r < N" "c < N" and nz: "grid b r c \<noteq> 0" and s: "sees r c r' c'"
    from s have rc': "r' < N" "c' < N" and ne: "(r', c') \<noteq> (r, c)" by (auto simp: sees_def)
    from s consider "r' = r" "c' \<noteq> c" | "c' = c" "r' \<noteq> r"
      | "box_index r' c' = box_index r c" by (auto simp: sees_def)
    then show "grid b r' c' \<noteq> grid b r c"
    proof cases
      case 1
      then show ?thesis using u rc rc' nz unfolding rows_ok_def by metis
    next
      case 2
      then show ?thesis using u rc rc' nz unfolding cols_ok_def by metis
    next
      case 3
      then have d: "r' div BOX = r div BOX" "c' div BOX = c div BOX"
        using box_index_eq_iff [of c' c r' r] rc rc' by simp_all
      define br bc where "br = BOX * (r div BOX)" and "bc = BOX * (c div BOX)"
      have e1: "r = br + r mod BOX" "c = bc + c mod BOX"
        unfolding br_def bc_def by simp_all
      have e2: "r' = br + r' mod BOX" "c' = bc + c' mod BOX"
        unfolding br_def bc_def d [symmetric] by simp_all
      note e = e1 e2
      have m: "br \<in> {0, 3, 6}" "bc \<in> {0, 3, 6}"
        unfolding br_def bc_def using rc by auto
      have "(r mod BOX, c mod BOX) \<noteq> (r' mod BOX, c' mod BOX)"
        using ne e by (metis prod.inject)
      moreover have "grid b (br + r mod BOX) (bc + c mod BOX) \<noteq> 0" using nz e by simp
      moreover have "boxes_ok b" using u by simp
      ultimately have "grid b (br + r mod BOX) (bc + c mod BOX)
          \<noteq> grid b (br + r' mod BOX) (bc + c' mod BOX)"
        using m unfolding boxes_ok_def
        by (elim ballE [of _ _ br] ballE [of _ _ bc] allE [of _ "r mod BOX"]
            allE [of _ "c mod BOX"] allE [of _ "r' mod BOX"] allE [of _ "c' mod BOX"]) simp_all
      then show ?thesis using e by metis
    qed
  qed
qed

lemma is_legal_iff: "wf_board b \<Longrightarrow> is_legal b \<longleftrightarrow> legal b"
  by (simp add: is_legal_units legal_units)

section \<open>Completions\<close>

text \<open>
  A completion of a board \<open>b\<close> is a board that has a digit 1..9 in every cell, is legal
  (by the program's own \<open>is_legal\<close>), and differs from \<open>b\<close> only at cells of the grid
  that are empty in \<open>b\<close>. \<open>placeable b r c v\<close>: the value \<open>v\<close> occurs in no other cell of
  the row, column and block of \<open>(r,c)\<close>.
\<close>

definition is_complete :: "Board \<Rightarrow> bool" where
  "is_complete b \<longleftrightarrow> (\<forall>r<N. \<forall>c<N. 1 \<le> grid b r c \<and> grid b r c \<le> 9)"

definition extends :: "Board \<Rightarrow> Board \<Rightarrow> bool" where
  "extends b s \<longleftrightarrow> (\<forall>r c. (r < N \<and> c < N \<and> grid b r c = 0) \<or> grid s r c = grid b r c)"

definition completion :: "Board \<Rightarrow> Board \<Rightarrow> bool" where
  "completion b s \<longleftrightarrow> is_complete s \<and> is_legal s \<and> extends b s"

definition placeable :: "Board \<Rightarrow> nat \<Rightarrow> nat \<Rightarrow> int \<Rightarrow> bool" where
  "placeable b r c v \<longleftrightarrow> (\<forall>r' c'. sees r c r' c' \<longrightarrow> grid b r' c' \<noteq> v)"

lemma sees_sym: "sees r c r' c' \<Longrightarrow> r < N \<Longrightarrow> c < N \<Longrightarrow> sees r' c' r c"
  by (auto simp: sees_def)

lemma is_complete_wf: "is_complete b \<Longrightarrow> wf_board b"
  by (fastforce simp: is_complete_def wf_board_def)

lemma board_eqI: "grid s = grid s' \<Longrightarrow> (s :: Board) = s'"
  by (cases s, cases s') simp

lemma cand_iff:
  assumes ok: "masks_ok b m" and rc: "r < N" "c < N" and e: "grid b r c = 0"
  shows "bit (candidates_mask m r c) n \<longleftrightarrow> n < 9 \<and> placeable b r c (int n + 1)"
proof -
  have bi: "box_index r c < N" using rc by (rule box_index_less)
  have z: "grid b r c \<noteq> int n + 1" using e by simp
  have "(\<forall>c'<N. grid b r c' \<noteq> int n + 1) \<and> (\<forall>r'<N. grid b r' c \<noteq> int n + 1) \<and>
        (\<forall>r'<N. \<forall>c'<N. box_index r' c' = box_index r c \<longrightarrow> grid b r' c' \<noteq> int n + 1)
        \<longleftrightarrow> placeable b r c (int n + 1)"
  proof
    assume "(\<forall>c'<N. grid b r c' \<noteq> int n + 1) \<and> (\<forall>r'<N. grid b r' c \<noteq> int n + 1) \<and>
        (\<forall>r'<N. \<forall>c'<N. box_index r' c' = box_index r c \<longrightarrow> grid b r' c' \<noteq> int n + 1)"
    then show "placeable b r c (int n + 1)"
      unfolding placeable_def sees_def by blast
  next
    assume P: "placeable b r c (int n + 1)"
    have "grid b r' c' \<noteq> int n + 1"
      if "r' < N" "c' < N" "r' = r \<or> c' = c \<or> box_index r' c' = box_index r c" for r' c'
    proof (cases "(r', c') = (r, c)")
      case True
      then show ?thesis using z by simp
    next
      case False
      then have "sees r c r' c'" using that by (simp add: sees_def)
      then show ?thesis using P by (simp add: placeable_def)
    qed
    then show "(\<forall>c'<N. grid b r c' \<noteq> int n + 1) \<and> (\<forall>r'<N. grid b r' c \<noteq> int n + 1) \<and>
        (\<forall>r'<N. \<forall>c'<N. box_index r' c' = box_index r c \<longrightarrow> grid b r' c' \<noteq> int n + 1)"
      using rc by blast
  qed
  then show ?thesis
    unfolding bit_candidates_mask masks_okD(1) [OF ok rc(1)] masks_okD(2) [OF ok rc(2)]
      masks_okD(3) [OF ok bi] by blast
qed

lemma legal_place:
  assumes l: "legal b" and rc: "r < N" "c < N" and v: "v \<noteq> 0" and p: "placeable b r c v"
  shows "legal (grid_upd b r c v)"
  unfolding legal_def sole_def
proof (intro allI impI)
  fix r1 c1 r2 c2
  assume a: "r1 < N" "c1 < N" "grid (grid_upd b r c v) r1 c1 \<noteq> 0" "sees r1 c1 r2 c2"
  show "grid (grid_upd b r c v) r2 c2 \<noteq> grid (grid_upd b r c v) r1 c1"
  proof (cases "(r1, c1) = (r, c)")
    case True
    then have "(r2, c2) \<noteq> (r, c)" "sees r c r2 c2" using a(4) by (auto simp: sees_def)
    then show ?thesis using True p by (auto simp: grid_grid_upd placeable_def)
  next
    case False
    then have nz: "grid b r1 c1 \<noteq> 0" using a(3) by (auto simp: grid_grid_upd)
    show ?thesis
    proof (cases "(r2, c2) = (r, c)")
      case True
      then have "sees r c r1 c1" using sees_sym [OF a(4) a(1,2)] by simp
      then have "grid b r1 c1 \<noteq> v" using p by (simp add: placeable_def)
      then show ?thesis using True False by (auto simp: grid_grid_upd)
    next
      case F2: False
      have "grid b r2 c2 \<noteq> grid b r1 c1"
        using l a(1,2,4) nz unfolding legal_def sole_def by blast
      then show ?thesis using False F2 by (auto simp: grid_grid_upd)
    qed
  qed
qed


lemma completion_value:
  assumes "completion (grid_upd b r c v) s" "r < N" "c < N" "v \<noteq> 0"
  shows "grid s r c = v"
proof -
  have "extends (grid_upd b r c v) s" using assms(1) by (simp add: completion_def)
  then have "(r < N \<and> c < N \<and> grid (grid_upd b r c v) r c = 0)
      \<or> grid s r c = grid (grid_upd b r c v) r c"
    unfolding extends_def by blast
  then show ?thesis using assms(4) by (simp add: grid_grid_upd)
qed

lemma extends_grid_upd:
  assumes "r < N" "c < N" "grid b r c = 0"
  shows "extends (grid_upd b r c v) s \<longleftrightarrow> extends b s \<and> (v \<noteq> 0 \<longrightarrow> grid s r c = v)"
proof -
  have "((r' < N \<and> c' < N \<and> grid (grid_upd b r c v) r' c' = 0)
            \<or> grid s r' c' = grid (grid_upd b r c v) r' c')
        \<longleftrightarrow> (if (r', c') = (r, c) then v = 0 \<or> grid s r c = v
            else (r' < N \<and> c' < N \<and> grid b r' c' = 0) \<or> grid s r' c' = grid b r' c')" for r' c'
    using assms by (auto simp: grid_grid_upd)
  then have "extends (grid_upd b r c v) s \<longleftrightarrow>
       (\<forall>r' c'. if (r', c') = (r, c) then v = 0 \<or> grid s r c = v
            else (r' < N \<and> c' < N \<and> grid b r' c' = 0) \<or> grid s r' c' = grid b r' c')"
    unfolding extends_def by simp
  also have "\<dots> \<longleftrightarrow> extends b s \<and> (v \<noteq> 0 \<longrightarrow> grid s r c = v)"
    unfolding extends_def using assms by (auto split: if_splits) 
  finally show ?thesis .
qed

lemma completion_split:
  assumes rc: "r < N" "c < N" and e: "grid b r c = 0"
  shows "completion b s \<longleftrightarrow>
     (\<exists>n<9. placeable b r c (int n + 1) \<and> completion (grid_upd b r c (int n + 1)) s)"
proof
  assume cs: "completion b s"
  then have comp: "is_complete s" and ext: "extends b s" by (simp_all add: completion_def)
  have ls: "legal s" using cs is_legal_iff [OF is_complete_wf [OF comp]] by (simp add: completion_def)
  define n where "n = nat (grid s r c - 1)"
  have v: "1 \<le> grid s r c" "grid s r c \<le> 9" using comp rc by (simp_all add: is_complete_def)
  then have n: "n < 9" "grid s r c = int n + 1" by (simp_all add: n_def)
  have "placeable b r c (int n + 1)"
    unfolding placeable_def
  proof (intro allI impI notI)
    fix r' c' assume s: "sees r c r' c'" and eq: "grid b r' c' = int n + 1"
    then have "grid b r' c' \<noteq> 0" by simp
    then have "grid s r' c' = grid b r' c'" using ext unfolding extends_def by blast
    moreover have "grid s r c \<noteq> 0" using v by simp
    then have "grid s r' c' \<noteq> grid s r c"
      using ls rc s unfolding legal_def sole_def by blast
    ultimately show False using eq n by simp
  qed
  moreover have "completion (grid_upd b r c (int n + 1)) s"
    using cs n by (simp add: completion_def extends_grid_upd [OF rc e])
  ultimately show "\<exists>n<9. placeable b r c (int n + 1) \<and> completion (grid_upd b r c (int n + 1)) s"
    using n(1) by blast
next
  assume "\<exists>n<9. placeable b r c (int n + 1) \<and> completion (grid_upd b r c (int n + 1)) s"
  then show "completion b s"
    by (auto simp: completion_def extends_grid_upd [OF rc e])
qed

lemma finite_completions: "finite {s. completion b s}"
proof -
  let ?f = "\<lambda>s. map (\<lambda>(r, c). grid s r c) cells"
  let ?A = "{s. completion b s}"
  have "?f ` ?A \<subseteq> {xs. set xs \<subseteq> {1..9} \<and> length xs = 81}"
    by (auto simp: completion_def is_complete_def set_cells length_cells)
  then have "finite (?f ` ?A)"
    by (rule finite_subset) (simp add: finite_lists_length_eq)
  moreover have "inj_on ?f ?A"
  proof (rule inj_onI)
    fix s s' assume a: "s \<in> ?A" "s' \<in> ?A" "?f s = ?f s'"
    have in_range: "grid s r c = grid s' r c" if "r < N" "c < N" for r c
      using a(3) that by (auto simp: set_cells)
    have e: "extends b s" "extends b s'" using a(1,2) by (simp_all add: completion_def)
    have out: "grid s r c = grid s' r c" if "\<not> (r < N \<and> c < N)" for r c
    proof -
      have "grid s r c = grid b r c" "grid s' r c = grid b r c"
        using e that unfolding extends_def by blast+
      then show ?thesis by simp
    qed
    have "grid s r c = grid s' r c" for r c
      using in_range [of r c] out [of r c] by blast
    then have "grid s = grid s'"
      by (intro ext)
    then show "s = s'" by (rule board_eqI)
  qed
  ultimately show ?thesis by (rule finite_imageD)
qed

lemma completion_of_complete:
  assumes "wf_board b" "\<not> any_empty b" "is_legal b"
  shows "{s. completion b s} = {b}"
proof -
  have ne: "grid b r c \<noteq> 0" if "r < N" "c < N" for r c
    using assms(2) that by (auto simp: any_empty_def list_ex_iff)
  have comp: "is_complete b"
    unfolding is_complete_def
  proof (intro allI impI)
    fix r c assume rc: "r < N" "c < N"
    then have "0 \<le> grid b r c \<and> grid b r c \<le> 9" using assms(1) by (simp add: wf_board_def)
    then show "1 \<le> grid b r c \<and> grid b r c \<le> 9" using ne [OF rc] by linarith
  qed
  have "s = b" if "completion b s" for s
  proof -
    have "grid s r c = grid b r c" for r c
      using that ne unfolding completion_def extends_def by blast
    then show ?thesis by (intro board_eqI ext)
  qed
  moreover have "completion b b"
    using comp assms(3) by (simp add: completion_def extends_def)
  ultimately show ?thesis by blast
qed

section \<open>Correctness of the two searches\<close>

text \<open>What every state of a search on a well-formed legal board satisfies.\<close>

definition search_inv :: "Board \<Rightarrow> Masks \<Rightarrow> bool" where
  "search_inv b m \<longleftrightarrow> wf_board b \<and> legal b \<and> masks_ok b m"

lemma any_empty_iff: "any_empty b \<longleftrightarrow> (\<exists>r<N. \<exists>c<N. grid b r c = 0)"
  unfolding any_empty_def list_ex_iff set_upt by (simp only: Bex_def atLeastLessThan_iff) auto

lemma popcount9_eq_0: "popcount9 x = 0 \<Longrightarrow> x = 0"
proof -
  assume "popcount9 x = 0"
  then have "\<forall>n<32. \<not> bit x n"
    by (simp add: popcount9_def filter_empty_conv)
  then show "x = 0"
    by (intro bit_eqI) (auto dest: bit_imp_le_length)
qed

lemma best_scan_None:
  "best_scan b m cs best bc = None \<Longrightarrow>
     (\<exists>p\<in>set cs. grid b (fst p) (snd p) = 0 \<and> candidates_mask m (fst p) (snd p) = 0) \<or>
     (best = None \<and>
        (\<forall>p\<in>set cs. grid b (fst p) (snd p) = 0 \<longrightarrow> bc \<le> popcount9 (candidates_mask m (fst p) (snd p))))"
proof (induction b m cs best bc rule: best_scan.induct)
  case (1 b m best bestCount)
  then show ?case by simp
next
  case (2 b m r c rest best bestCount)
  show ?case
  proof (cases "grid b r c = 0")
    case False
    then show ?thesis using 2 by auto
  next
    case True
    let ?cnt = "popcount9 (candidates_mask m r c)"
    consider "?cnt = 0" | "?cnt \<noteq> 0" "?cnt < bestCount" "?cnt = 1"
      | "?cnt \<noteq> 0" "?cnt < bestCount" "?cnt \<noteq> 1" | "?cnt \<noteq> 0" "\<not> ?cnt < bestCount"
      by blast
    then show ?thesis
    proof cases
      case 1
      then show ?thesis using True popcount9_eq_0 by auto
    next
      case 2
      then show ?thesis using True "2.prems" by (simp add: Let_def)
    next
      case 3
      have "best_scan b m rest (Some \<lparr>ch_r = r, ch_c = c, ch_cand = candidates_mask m r c\<rparr>) ?cnt
          = None"
        using "2.prems" True 3 by (simp add: Let_def)
      from "2.IH"(2) [OF _ refl refl _ _ _ this] True 3 show ?thesis by auto
    next
      case 4
      have "best_scan b m rest best bestCount = None"
        using "2.prems" True 4 by (simp add: Let_def)
      from "2.IH"(3) [OF _ refl refl _ _ this] True 4 show ?thesis by auto
    qed
  qed
qed

lemma find_best_cell_None:
  assumes "find_best_cell b m = None" "any_empty b"
  shows "\<exists>r<N. \<exists>c<N. grid b r c = 0 \<and> candidates_mask m r c = 0"
proof -
  from best_scan_None [OF assms(1) [unfolded find_best_cell_def]]
  consider p where "p \<in> set cells" "grid b (fst p) (snd p) = 0" "candidates_mask m (fst p) (snd p) = 0"
    | "\<forall>p\<in>set cells. grid b (fst p) (snd p) = 0 \<longrightarrow> 10 \<le> popcount9 (candidates_mask m (fst p) (snd p))"
    by blast
  then show ?thesis
  proof cases
    case 1
    obtain r c where p: "p = (r, c)" by (cases p)
    have "r < N" "c < N" using 1(1) unfolding p set_cells by simp_all
    then show ?thesis using 1(2,3) unfolding p by auto
  next
    case 2
    from assms(2) obtain r c where rc: "r < N" "c < N" "grid b r c = 0"
      by (auto simp: any_empty_iff)
    then have "(r, c) \<in> set cells" by (simp add: set_cells)
    with 2 rc(3) have "10 \<le> popcount9 (candidates_mask m r c)" by fastforce
    then show ?thesis using popcount9_candidates_le [of m r c] by simp
  qed
qed

lemma no_candidate_no_completion:
  assumes "masks_ok b m" "r < N" "c < N" "grid b r c = 0" "candidates_mask m r c = 0"
  shows "\<not> completion b s"
proof
  assume "completion b s"
  then obtain n where "n < 9" "placeable b r c (int n + 1)"
    using completion_split [OF assms(2-4)] by blast
  then have "bit (candidates_mask m r c) n"
    using cand_iff [OF assms(1-4)] by simp
  then show False using assms(5) by simp
qed

lemma branch_inv:
  assumes inv: "search_inv bb mm" and rc: "r < N" "c < N" and e: "grid bb r c = 0"
    and k: "bit (candidates_mask mm r c) k"
  shows "search_inv (grid_upd bb r c (int k + 1)) (masks_or mm r c (digit_bit (int k + 1)))"
proof -
  from inv have wf: "wf_board bb" and l: "legal bb" and ok: "masks_ok bb mm"
    by (simp_all add: search_inv_def)
  from k have k9: "k < 9" and p: "placeable bb r c (int k + 1)"
    using cand_iff [OF ok rc e] by simp_all
  have "wf_board (grid_upd bb r c (int k + 1))"
    using wf k9 by (intro wf_board_grid_upd) simp_all
  moreover have "legal (grid_upd bb r c (int k + 1))"
    using l rc p by (intro legal_place) simp_all
  moreover have "masks_ok (grid_upd bb r c (int k + 1)) (masks_or mm r c (digit_bit (int k + 1)))"
    using ok rc e k9 by (intro masks_ok_set) simp_all
  ultimately show ?thesis by (simp add: search_inv_def)
qed

text \<open>The completions that have the digit \<open>n+1\<close> at the cell \<open>(r,c)\<close>.\<close>

definition branch :: "Board \<Rightarrow> nat \<Rightarrow> nat \<Rightarrow> nat \<Rightarrow> Board set" where
  "branch b r c n = {s. completion (grid_upd b r c (int n + 1)) s}"

lemma finite_branch: "finite (branch b r c n)"
  unfolding branch_def by (rule finite_completions)

lemma branch_disjoint:
  assumes "r < N" "c < N" "n \<noteq> k"
  shows "branch b r c n \<inter> branch b r c k = {}"
proof -
  have False if "s \<in> branch b r c n" "s \<in> branch b r c k" for s
  proof -
    have "grid s r c = int n + 1" "grid s r c = int k + 1"
      using that assms(1,2) unfolding branch_def by (auto intro: completion_value)
    then show False using assms(3) by simp
  qed
  then show ?thesis by blast
qed

lemma completions_branches:
  assumes "masks_ok b m" "r < N" "c < N" "grid b r c = 0"
  shows "{s. completion b s} = (\<Union>n\<in>{n. bit (candidates_mask m r c) n}. branch b r c n)"
proof -
  have "completion b s \<longleftrightarrow> (\<exists>n. bit (candidates_mask m r c) n \<and> s \<in> branch b r c n)" for s
    unfolding completion_split [OF assms(2-4)] cand_iff [OF assms] branch_def by auto
  then show ?thesis by blast
qed

lemma card_branches_split:
  assumes rc: "r < N" "c < N" and k: "k \<in> K" and fin: "finite K"
  shows "card (\<Union>n\<in>K. branch b r c n)
       = card (branch b r c k) + card (\<Union>n\<in>K - {k}. branch b r c n)"
proof -
  have "(\<Union>n\<in>K. branch b r c n) = branch b r c k \<union> (\<Union>n\<in>K - {k}. branch b r c n)"
    using k by blast
  moreover have "branch b r c k \<inter> (\<Union>n\<in>K - {k}. branch b r c n) = {}"
    using branch_disjoint [OF rc] by blast
  moreover have "finite (\<Union>n\<in>K - {k}. branch b r c n)"
    using fin by (intro finite_UN_I) (simp_all add: finite_branch)
  ultimately show ?thesis
    by (simp add: card_Un_disjoint finite_branch)
qed

lemma finite_bits: "finite {n. bit (x :: 32 word) n}"
  by (rule finite_subset [of _ "{..<32}"]) (auto dest: bit_imp_le_length)

lemma count_arith_stop:
  fixes lim tot n :: int and A B :: nat
  assumes "lim \<le> tot + n" "n = min (lim - tot) (int A)"
  shows "tot + n = min lim (tot + int (A + B))"
  using assms by linarith

lemma count_arith_go:
  fixes lim tot n :: int and A B :: nat
  assumes "\<not> lim \<le> tot + n" "n = min (lim - tot) (int A)"
  shows "min lim (tot + n + int B) = min lim (tot + int (A + B))"
  using assms by linarith

lemma count_correct:
  "search_inv bb mm \<Longrightarrow> 1 \<le> lim \<Longrightarrow>
     fst (count_rec bb mm lim) = min lim (int (card {s. completion bb s}))"
  "search_inv bb mm \<Longrightarrow> ch_r ch < N \<Longrightarrow> ch_c ch < N \<Longrightarrow> grid bb (ch_r ch) (ch_c ch) = 0 \<Longrightarrow>
   (\<forall>n. bit cand n \<longrightarrow> bit (candidates_mask mm (ch_r ch) (ch_c ch)) n) \<Longrightarrow>
   0 \<le> tot \<Longrightarrow> tot < lim \<Longrightarrow>
     fst (count_loop bb mm ch cand lim tot)
       = min lim (tot + int (card (\<Union>n\<in>{n. bit cand n}. branch bb (ch_r ch) (ch_c ch) n)))"
proof (induct bb mm lim and bb mm ch cand lim tot rule: count_rec_count_loop.induct)
  case (1 bb mm lim)
  from "1.prems" have wf: "wf_board bb" and l: "legal bb" and ok: "masks_ok bb mm"
    by (simp_all add: search_inv_def)
  show ?case
  proof (cases "any_empty bb")
    case False
    have "{s. completion bb s} = {bb}"
      using wf False l is_legal_iff [OF wf] by (intro completion_of_complete) simp_all
    then show ?thesis using False "1.prems"(2) by (simp add: count_rec.simps)
  next
    case True
    show ?thesis
    proof (cases "find_best_cell bb mm")
      case None
      from find_best_cell_None [OF None True] obtain r c where
        "r < N" "c < N" "grid bb r c = 0" "candidates_mask mm r c = 0" by blast
      then have "{s. completion bb s} = {}"
        using no_candidate_no_completion [OF ok] by blast
      then show ?thesis using True None "1.prems"(2) by (simp add: count_rec.simps)
    next
      case (Some ch)
      note f = find_best_cell_Some [OF Some]
      have nn: "\<not> \<not> any_empty bb" using True by simp
      have sub0: "\<forall>n. bit (ch_cand ch) n \<longrightarrow> bit (candidates_mask mm (ch_r ch) (ch_c ch)) n"
        using f(4) by simp
      have l0: "(0::int) \<le> 0" "0 < lim" using "1.prems"(2) by simp_all
      have "fst (count_loop bb mm ch (ch_cand ch) lim 0)
          = min lim (0 + int (card (\<Union>n\<in>{n. bit (ch_cand ch) n}. branch bb (ch_r ch) (ch_c ch) n)))"
        by (rule "1.hyps" [OF nn Some "1.prems"(1) f(1-3) sub0 l0])
      also have "(\<Union>n\<in>{n. bit (ch_cand ch) n}. branch bb (ch_r ch) (ch_c ch) n)
          = {s. completion bb s}"
        unfolding f(4) using completions_branches [OF ok f(1-3)] by simp
      finally show ?thesis using True Some by (simp add: count_rec.simps)
    qed
  qed
next
  case (2 bb mm ch cand lim tot)
  let ?r = "ch_r ch" and ?c = "ch_c ch"
  note inv = "2.prems"(1) and rc = "2.prems"(2,3) and e = "2.prems"(4)
    and sub = "2.prems"(5) and tot = "2.prems"(6,7)
  show ?case
  proof (cases "cand = 0")
    case True
    then show ?thesis using tot by (simp add: count_loop.simps)
  next
    case False
    from lowbit_step [OF False] obtain k where k: "k < 32" "bit cand k"
      "cand AND - cand = digit_bit (int k + 1)"
      "lsb_index (cand AND - cand) + 1 = int k + 1"
      "\<forall>n. bit (cand XOR (cand AND - cand)) n \<longleftrightarrow> bit cand n \<and> n \<noteq> k"
      by (elim exE conjE)
    define bb1 where "bb1 = grid_upd bb ?r ?c (int k + 1)"
    define mm1 where "mm1 = masks_or mm ?r ?c (digit_bit (int k + 1))"
    have e1: "(bb1, mm1) = apply_set bb mm ?r ?c (lsb_index (cand AND - cand) + 1)"
      by (simp add: apply_set_def bb1_def mm1_def k(4))
    have ck: "bit (candidates_mask mm ?r ?c) k" using sub k(2) by blast
    have inv1: "search_inv bb1 mm1"
      unfolding bb1_def mm1_def using inv rc e ck by (rule branch_inv)
    define n where "n = fst (count_rec bb1 mm1 (lim - tot))"
    have res: "count_rec bb1 mm1 (lim - tot) = (n, bb1, mm1)"
      using count_restore(1) [of bb1 mm1 "lim - tot"] by (simp add: n_def prod_eq_iff)
    have lt: "1 \<le> lim - tot" using tot by simp
    have n: "n = min (lim - tot) (int (card (branch bb ?r ?c k)))"
      unfolding n_def branch_def bb1_def [symmetric]
      by (rule "2.hyps"(1) [OF False refl refl refl refl e1 inv1 lt])
    have clr: "apply_clear bb1 mm1 ?r ?c = (bb, mm)"
      unfolding bb1_def mm1_def using e ck by (rule set_clear_candidate)
    have unf: "count_loop bb mm ch cand lim tot =
        (if lim \<le> tot + n then (tot + n, bb, mm)
         else count_loop bb mm ch (cand XOR (cand AND - cand)) lim (tot + n))"
      using False e1 [symmetric] res clr by (subst count_loop.simps) (simp add: Let_def)
    have bits': "{m. bit (cand XOR (cand AND - cand)) m} = {m. bit cand m} - {k}"
      using k(5) by auto
    have card: "card (\<Union>m\<in>{m. bit cand m}. branch bb ?r ?c m)
        = card (branch bb ?r ?c k) + card (\<Union>m\<in>{m. bit cand m} - {k}. branch bb ?r ?c m)"
      using rc k(2) by (intro card_branches_split) (simp_all add: finite_bits)
    show ?thesis
    proof (cases "lim \<le> tot + n")
      case True
      have "fst (count_loop bb mm ch cand lim tot) = tot + n"
        by (subst unf) (simp add: True)
      also have "\<dots> = min lim (tot + int (card (branch bb ?r ?c k)
          + card (\<Union>m\<in>{m. bit cand m} - {k}. branch bb ?r ?c m)))"
        using True n by (rule count_arith_stop)
      finally show ?thesis by (simp only: card)
    next
      case nle: False
      have n0: "0 \<le> n" unfolding n using tot by simp
      have sub': "\<forall>m. bit (cand XOR (cand AND - cand)) m \<longrightarrow> bit (candidates_mask mm ?r ?c) m"
        using sub k(5) by blast
      have t': "0 \<le> tot + n" "tot + n < lim" using tot n0 nle by simp_all
      have "fst (count_loop bb mm ch cand lim tot)
          = fst (count_loop bb mm ch (cand XOR (cand AND - cand)) lim (tot + n))"
        by (subst unf) (simp add: nle)
      also have "\<dots> = min lim (tot + n + int (card (\<Union>m\<in>{m. bit (cand XOR (cand AND - cand)) m}.
                branch bb ?r ?c m)))"
        by (rule "2.hyps"(2) [OF False refl refl refl refl e1 refl res [symmetric] refl refl refl
            clr [symmetric] nle inv rc e sub' t'])
      also have "\<dots> = min lim (tot + int (card (branch bb ?r ?c k)
          + card (\<Union>m\<in>{m. bit cand m} - {k}. branch bb ?r ?c m)))"
        unfolding bits' using nle n by (rule count_arith_go)
      finally show ?thesis by (simp only: card)
    qed
  qed
qed

lemma search_inv_init:
  assumes "wf_board b" "is_legal b"
  shows "search_inv b (masks_init m b)"
  using assms by (simp add: search_inv_def is_legal_iff masks_init_ok)

lemma count_solutions_min:
  assumes "wf_board b" "is_legal b" "1 \<le> k"
  shows "fst (count_solutions b k) = min k (int (card {s. completion b s}))"
proof -
  have "fst (count_solutions b k) = fst (count_rec b (masks_init fresh_masks b) k)"
    by (simp add: count_solutions_def split: prod.splits)
  then show ?thesis
    using count_correct(1) [OF search_inv_init [OF assms(1,2)] assms(3)] by simp
qed

lemma solve_correct:
  "search_inv bb mm \<Longrightarrow>
     (if fst (solve_rec bb mm)
      then completion bb (fst (snd (solve_rec bb mm)))
      else {s. completion bb s} = {})"
  "search_inv bb mm \<Longrightarrow> ch_r ch < N \<Longrightarrow> ch_c ch < N \<Longrightarrow> grid bb (ch_r ch) (ch_c ch) = 0 \<Longrightarrow>
   (\<forall>n. bit cand n \<longrightarrow> bit (candidates_mask mm (ch_r ch) (ch_c ch)) n) \<Longrightarrow>
     (if fst (solve_loop bb mm ch cand)
      then \<exists>n. bit cand n \<and> fst (snd (solve_loop bb mm ch cand)) \<in> branch bb (ch_r ch) (ch_c ch) n
      else \<forall>n. bit cand n \<longrightarrow> branch bb (ch_r ch) (ch_c ch) n = {})"
proof (induct bb mm and bb mm ch cand rule: solve_rec_solve_loop.induct)
  case (1 bb mm)
  from "1.prems" have wf: "wf_board bb" and l: "legal bb" and ok: "masks_ok bb mm"
    by (simp_all add: search_inv_def)
  show ?case
  proof (cases "any_empty bb")
    case False
    have "{s. completion bb s} = {bb}"
      using wf False l is_legal_iff [OF wf] by (intro completion_of_complete) simp_all
    then have "completion bb bb" by blast
    then show ?thesis using False by (simp add: solve_rec.simps)
  next
    case True
    show ?thesis
    proof (cases "find_best_cell bb mm")
      case None
      from find_best_cell_None [OF None True] obtain r c where
        "r < N" "c < N" "grid bb r c = 0" "candidates_mask mm r c = 0" by blast
      then have "{s. completion bb s} = {}"
        using no_candidate_no_completion [OF ok] by blast
      then show ?thesis using True None by (simp add: solve_rec.simps)
    next
      case (Some ch)
      note f = find_best_cell_Some [OF Some]
      have nn: "\<not> \<not> any_empty bb" using True by simp
      have sub0: "\<forall>n. bit (ch_cand ch) n \<longrightarrow> bit (candidates_mask mm (ch_r ch) (ch_c ch)) n"
        using f(4) by simp
      have eq: "solve_rec bb mm = solve_loop bb mm ch (ch_cand ch)"
        using True Some by (simp add: solve_rec.simps)
      have un: "{s. completion bb s}
          = (\<Union>n\<in>{n. bit (ch_cand ch) n}. branch bb (ch_r ch) (ch_c ch) n)"
        unfolding f(4) using completions_branches [OF ok f(1-3)] by simp
      have mem: "completion bb s \<longleftrightarrow> (\<exists>n. bit (ch_cand ch) n \<and> s \<in> branch bb (ch_r ch) (ch_c ch) n)"
        for s using un by blast
      from "1.hyps" [OF nn Some "1.prems" f(1-3) sub0]
      show ?thesis unfolding eq un mem by (auto split: if_splits)
    qed
  qed
next
  case (2 bb mm ch cand)
  let ?r = "ch_r ch" and ?c = "ch_c ch"
  note inv = "2.prems"(1) and rc = "2.prems"(2,3) and e = "2.prems"(4) and sub = "2.prems"(5)
  show ?case
  proof (cases "cand = 0")
    case True
    then show ?thesis by (simp add: solve_loop.simps)
  next
    case False
    from lowbit_step [OF False] obtain k where k: "k < 32" "bit cand k"
      "cand AND - cand = digit_bit (int k + 1)"
      "lsb_index (cand AND - cand) + 1 = int k + 1"
      "\<forall>n. bit (cand XOR (cand AND - cand)) n \<longleftrightarrow> bit cand n \<and> n \<noteq> k"
      by (elim exE conjE)
    define bb1 where "bb1 = grid_upd bb ?r ?c (int k + 1)"
    define mm1 where "mm1 = masks_or mm ?r ?c (digit_bit (int k + 1))"
    have e1: "(bb1, mm1) = apply_set bb mm ?r ?c (lsb_index (cand AND - cand) + 1)"
      by (simp add: apply_set_def bb1_def mm1_def k(4))
    have ck: "bit (candidates_mask mm ?r ?c) k" using sub k(2) by blast
    have inv1: "search_inv bb1 mm1"
      unfolding bb1_def mm1_def using inv rc e ck by (rule branch_inv)
    obtain ok bb2 mm2 where res: "solve_rec bb1 mm1 = (ok, bb2, mm2)"
      by (cases "solve_rec bb1 mm1") auto
    obtain bb3 mm3 where clr: "apply_clear bb2 mm2 ?r ?c = (bb3, mm3)"
      by (cases "apply_clear bb2 mm2 ?r ?c") auto
    have unf: "solve_loop bb mm ch cand =
        (if ok then (True, bb2, mm2) else solve_loop bb3 mm3 ch (cand XOR (cand AND - cand)))"
      using False e1 [symmetric] res clr by (subst solve_loop.simps) (simp add: Let_def)
    have IH1: "if ok then completion bb1 bb2 else {s. completion bb1 s} = {}"
      using "2.hyps"(1) [OF False refl refl refl refl e1 inv1] unfolding res
      by (simp split: if_splits)
    show ?thesis
    proof (cases ok)
      case True
      then have "bb2 \<in> branch bb ?r ?c k"
        using IH1 by (simp add: branch_def bb1_def)
      then show ?thesis using unf True k(2) by auto
    next
      case nok: False
      have "snd (solve_rec bb1 mm1) = (bb1, mm1)"
        using solve_restore(1) [of bb1 mm1] res nok by simp
      then have eq2: "bb2 = bb1" "mm2 = mm1" using res by simp_all
      have "apply_clear bb1 mm1 ?r ?c = (bb, mm)"
        unfolding bb1_def mm1_def using e ck by (rule set_clear_candidate)
      then have eq3: "bb3 = bb" "mm3 = mm" using clr eq2 by simp_all
      have sub': "\<forall>m. bit (cand XOR (cand AND - cand)) m \<longrightarrow> bit (candidates_mask mm ?r ?c) m"
        using sub k(5) by blast
      have bk: "branch bb ?r ?c k = {}"
        using IH1 nok by (simp add: branch_def bb1_def)
      have IH2: "if fst (solve_loop bb mm ch (cand XOR (cand AND - cand)))
        then \<exists>n. bit (cand XOR (cand AND - cand)) n \<and>
                fst (snd (solve_loop bb mm ch (cand XOR (cand AND - cand)))) \<in> branch bb ?r ?c n
        else \<forall>n. bit (cand XOR (cand AND - cand)) n \<longrightarrow> branch bb ?r ?c n = {}"
        using "2.hyps"(2) [OF False refl refl refl refl e1 refl res [symmetric] refl nok refl
            clr [symmetric]] inv rc e sub' unfolding eq3 by blast
      have unf': "solve_loop bb mm ch cand = solve_loop bb mm ch (cand XOR (cand AND - cand))"
        using unf nok eq3 by simp
      show ?thesis
      proof (cases "fst (solve_loop bb mm ch (cand XOR (cand AND - cand)))")
        case True
        then show ?thesis using IH2 k(5) unfolding unf' by auto
      next
        case False
        then have "\<forall>n. bit cand n \<and> n \<noteq> k \<longrightarrow> branch bb ?r ?c n = {}"
          using IH2 k(5) by simp
        then have "\<forall>n. bit cand n \<longrightarrow> branch bb ?r ?c n = {}"
          using bk by metis
        then show ?thesis using False unfolding unf' by simp
      qed
    qed
  qed
qed

section \<open>The mask invariant, solving and counting\<close>

text \<open>A complete legal board (the base pattern of the generator).\<close>

definition solved_board :: Board where
  "solved_board = board_of
    [[1,2,3, 4,5,6, 7,8,9],
     [4,5,6, 7,8,9, 1,2,3],
     [7,8,9, 1,2,3, 4,5,6],
     [2,3,4, 5,6,7, 8,9,1],
     [5,6,7, 8,9,1, 2,3,4],
     [8,9,1, 2,3,4, 5,6,7],
     [3,4,5, 6,7,8, 9,1,2],
     [6,7,8, 9,1,2, 3,4,5],
     [9,1,2, 3,4,5, 6,7,8]]"

lemma all_less_N: "(\<forall>r<N. P r) \<longleftrightarrow> list_all P [0..<N]"
  unfolding list_all_iff set_upt by auto

lemma solved_board_legal: "is_legal solved_board"
  by (simp add: is_legal_def solved_board_def board_of_def upt9 upt_rec)

lemma solved_board_complete: "is_complete solved_board"
  unfolding is_complete_def all_less_N
  by (simp add: solved_board_def board_of_def upt9)

lemma solved_board_not_empty: "\<not> any_empty solved_board"
  by (simp add: any_empty_def solved_board_def board_of_def upt9)

text \<open>
  The invariant as the specification words it: the bit of every filled cell is set in the
  masks of its row, column and block, and each mask bit is set iff the digit occurs.
\<close>

definition masks_consistent :: "Board \<Rightarrow> Masks \<Rightarrow> bool" where
  "masks_consistent b m \<longleftrightarrow>
     (\<forall>r<N. \<forall>c<N. grid b r c \<noteq> 0 \<longrightarrow>
        bit (row m r) (nat (grid b r c - 1)) \<and> bit (col m c) (nat (grid b r c - 1))
        \<and> bit (box m (box_index r c)) (nat (grid b r c - 1)))
     \<and> masks_ok b m"

lemma masks_consistent_iff:
  assumes "wf_board b"
  shows "masks_consistent b m \<longleftrightarrow> masks_ok b m"
proof -
  have "bit (row m r) (nat (grid b r c - 1)) \<and> bit (col m c) (nat (grid b r c - 1))
        \<and> bit (box m (box_index r c)) (nat (grid b r c - 1))"
    if ok: "masks_ok b m" and rc: "r < N" "c < N" and nz: "grid b r c \<noteq> 0" for r c
  proof -
    have "0 \<le> grid b r c" using assms rc by (simp add: wf_board_def)
    then have v: "grid b r c = int (nat (grid b r c - 1)) + 1" using nz by simp
    show ?thesis
      unfolding masks_okD(1) [OF ok rc(1)] masks_okD(2) [OF ok rc(2)]
        masks_okD(3) [OF ok box_index_less [OF rc]]
      using rc v by blast
  qed
  then show ?thesis unfolding masks_consistent_def by blast
qed

lemma solve_masks_inv:
  "wf_board bb \<Longrightarrow> masks_ok bb mm \<Longrightarrow>
     wf_board (fst (snd (solve_rec bb mm))) \<and>
     masks_ok (fst (snd (solve_rec bb mm))) (snd (snd (solve_rec bb mm)))"
  "wf_board bb \<Longrightarrow> masks_ok bb mm \<Longrightarrow> ch_r ch < N \<Longrightarrow> ch_c ch < N \<Longrightarrow>
   grid bb (ch_r ch) (ch_c ch) = 0 \<Longrightarrow>
   (\<forall>n. bit cand n \<longrightarrow> bit (candidates_mask mm (ch_r ch) (ch_c ch)) n) \<Longrightarrow>
     wf_board (fst (snd (solve_loop bb mm ch cand))) \<and>
     masks_ok (fst (snd (solve_loop bb mm ch cand))) (snd (snd (solve_loop bb mm ch cand)))"
proof (induct bb mm and bb mm ch cand rule: solve_rec_solve_loop.induct)
  case (1 bb mm)
  show ?case
  proof (cases "any_empty bb")
    case False
    then show ?thesis using "1.prems" by (simp add: solve_rec.simps)
  next
    case True
    show ?thesis
    proof (cases "find_best_cell bb mm")
      case None
      then show ?thesis using True "1.prems" by (simp add: solve_rec.simps)
    next
      case (Some ch)
      note f = find_best_cell_Some [OF Some]
      have nn: "\<not> \<not> any_empty bb" using True by simp
      have sub0: "\<forall>n. bit (ch_cand ch) n \<longrightarrow> bit (candidates_mask mm (ch_r ch) (ch_c ch)) n"
        using f(4) by simp
      have eq: "solve_rec bb mm = solve_loop bb mm ch (ch_cand ch)"
        using True Some by (simp add: solve_rec.simps)
      show ?thesis unfolding eq by (rule "1.hyps" [OF nn Some "1.prems" f(1-3) sub0])
    qed
  qed
next
  case (2 bb mm ch cand)
  let ?r = "ch_r ch" and ?c = "ch_c ch"
  note wf = "2.prems"(1) and ok = "2.prems"(2) and rc = "2.prems"(3,4) and e = "2.prems"(5)
    and sub = "2.prems"(6)
  show ?case
  proof (cases "cand = 0")
    case True
    then show ?thesis using wf ok by (simp add: solve_loop.simps)
  next
    case False
    from lowbit_step [OF False] obtain k where k: "k < 32" "bit cand k"
      "cand AND - cand = digit_bit (int k + 1)"
      "lsb_index (cand AND - cand) + 1 = int k + 1"
      "\<forall>n. bit (cand XOR (cand AND - cand)) n \<longleftrightarrow> bit cand n \<and> n \<noteq> k"
      by (elim exE conjE)
    define bb1 where "bb1 = grid_upd bb ?r ?c (int k + 1)"
    define mm1 where "mm1 = masks_or mm ?r ?c (digit_bit (int k + 1))"
    have e1: "(bb1, mm1) = apply_set bb mm ?r ?c (lsb_index (cand AND - cand) + 1)"
      by (simp add: apply_set_def bb1_def mm1_def k(4))
    have ck: "bit (candidates_mask mm ?r ?c) k" using sub k(2) by blast
    then have k9: "k < 9" by (simp add: bit_candidates_mask)
    have wf1: "wf_board bb1" unfolding bb1_def using wf k9 by (intro wf_board_grid_upd) simp_all
    have ok1: "masks_ok bb1 mm1"
      unfolding bb1_def mm1_def using ok rc e k9 by (intro masks_ok_set) simp_all
    obtain b2 bb2 mm2 where res: "solve_rec bb1 mm1 = (b2, bb2, mm2)"
      by (cases "solve_rec bb1 mm1") auto
    obtain bb3 mm3 where clr: "apply_clear bb2 mm2 ?r ?c = (bb3, mm3)"
      by (cases "apply_clear bb2 mm2 ?r ?c") auto
    have unf: "solve_loop bb mm ch cand =
        (if b2 then (True, bb2, mm2) else solve_loop bb3 mm3 ch (cand XOR (cand AND - cand)))"
      using False e1 [symmetric] res clr by (subst solve_loop.simps) (simp add: Let_def)
    have IH1: "wf_board bb2 \<and> masks_ok bb2 mm2"
      using "2.hyps"(1) [OF False refl refl refl refl e1 wf1 ok1] unfolding res by simp
    show ?thesis
    proof (cases b2)
      case True
      then show ?thesis using unf IH1 by simp
    next
      case nok: False
      have "snd (solve_rec bb1 mm1) = (bb1, mm1)"
        using solve_restore(1) [of bb1 mm1] res nok by simp
      then have eq2: "bb2 = bb1" "mm2 = mm1" using res by simp_all
      have "apply_clear bb1 mm1 ?r ?c = (bb, mm)"
        unfolding bb1_def mm1_def using e ck by (rule set_clear_candidate)
      then have eq3: "bb3 = bb" "mm3 = mm" using clr eq2 by simp_all
      have sub': "\<forall>m. bit (cand XOR (cand AND - cand)) m \<longrightarrow> bit (candidates_mask mm ?r ?c) m"
        using sub k(5) by blast
      have unf': "solve_loop bb mm ch cand = solve_loop bb mm ch (cand XOR (cand AND - cand))"
        using unf nok eq3 by simp
      show ?thesis
        unfolding unf'
        using "2.hyps"(2) [OF False refl refl refl refl e1 refl res [symmetric] refl nok refl
            clr [symmetric]] wf ok rc e sub' unfolding eq3 by blast
    qed
  qed
qed

text \<open>
  Claim C5: the mask invariant is established by \<open>masks_init\<close> from any well-formed board
  (whatever the storage held before), and preserved by the placements and removals of the
  search: by \<open>apply_set\<close> of a digit 1..9 on an empty cell, and by \<open>apply_clear\<close> of a
  cell whose value occurs nowhere else in its row, column and block. These are the calls
  the search makes: it places candidates of the empty cell that \<open>find_best_cell\<close> chose,
  and it clears that cell again in the state in which it was filled (\<open>solve_restore\<close>,
  \<open>count_restore\<close>), where the candidate is the only occurrence of its digit. Hence the
  states that \<open>solve_rec\<close> and \<open>count_rec\<close> hand back satisfy the invariant as well.
  Carving never calls the two operations itself: it runs \<open>count_solutions\<close>, which starts
  from \<open>masks_init\<close>.
\<close>

theorem masks_invariant:
  "(wf_board b \<longrightarrow> masks_consistent b (masks_init old b))
   \<and> (wf_board b \<and> masks_consistent b m \<and> r < N \<and> c < N \<and> grid b r c = 0 \<and> 1 \<le> v \<and> v \<le> 9 \<longrightarrow>
        (case apply_set b m r c v of (b', m') \<Rightarrow> wf_board b' \<and> masks_consistent b' m'))
   \<and> (wf_board b \<and> masks_consistent b m \<and> r < N \<and> c < N \<and> sole b r c \<longrightarrow>
        (case apply_clear b m r c of (b', m') \<Rightarrow> wf_board b' \<and> masks_consistent b' m'))
   \<and> (wf_board b \<and> masks_consistent b m \<longrightarrow>
        (case solve_rec b m of (ok, b', m') \<Rightarrow> wf_board b' \<and> masks_consistent b' m') \<and>
        (case count_rec b m k of (n, b', m') \<Rightarrow> wf_board b' \<and> masks_consistent b' m'))"
proof (intro conjI impI)
  assume "wf_board b"
  then show "masks_consistent b (masks_init old b)"
    by (simp add: masks_consistent_iff masks_init_ok)
next
  assume a: "wf_board b \<and> masks_consistent b m \<and> r < N \<and> c < N \<and> grid b r c = 0 \<and> 1 \<le> v \<and> v \<le> 9"
  then have wf: "wf_board b" and rc: "r < N" "c < N" and e: "grid b r c = 0"
    and v: "1 \<le> v" "v \<le> 9" by simp_all
  have ok: "masks_ok b m" using a masks_consistent_iff [OF wf] by simp
  have wf': "wf_board (grid_upd b r c v)" using wf v by (intro wf_board_grid_upd) simp_all
  have "masks_ok (grid_upd b r c v) (masks_or m r c (digit_bit v))"
    using ok rc e v by (rule masks_ok_set)
  then show "case apply_set b m r c v of (b', m') \<Rightarrow> wf_board b' \<and> masks_consistent b' m'"
    using wf' by (simp add: apply_set_def masks_consistent_iff [OF wf'])
next
  assume a: "wf_board b \<and> masks_consistent b m \<and> r < N \<and> c < N \<and> sole b r c"
  then have wf: "wf_board b" and rc: "r < N" "c < N" and so: "sole b r c" by simp_all
  have ok: "masks_ok b m" using a masks_consistent_iff [OF wf] by simp
  show "case apply_clear b m r c of (b', m') \<Rightarrow> wf_board b' \<and> masks_consistent b' m'"
  proof (cases "grid b r c = 0")
    case True
    then show ?thesis using a by (simp add: apply_clear_def)
  next
    case False
    have "0 \<le> grid b r c \<and> grid b r c \<le> 9" using wf rc by (simp add: wf_board_def)
    then have v: "1 \<le> grid b r c" "grid b r c \<le> 9" using False by linarith+
    have wf': "wf_board (grid_upd b r c 0)" using wf by (intro wf_board_grid_upd) simp_all
    have "masks_ok (grid_upd b r c 0) (masks_andnot m r c (digit_bit (grid b r c)))"
      using ok rc v so by (rule masks_ok_clear)
    then show ?thesis using False wf' by (simp add: apply_clear_def masks_consistent_iff [OF wf'])
  qed
next
  assume a: "wf_board b \<and> masks_consistent b m"
  then have wf: "wf_board b" by simp
  have ok: "masks_ok b m" using a masks_consistent_iff [OF wf] by simp
  from solve_masks_inv(1) [OF wf ok]
  show "case solve_rec b m of (ok, b', m') \<Rightarrow> wf_board b' \<and> masks_consistent b' m'"
    by (auto simp: masks_consistent_iff split: prod.splits)
next
  assume a: "wf_board b \<and> masks_consistent b m"
  have "snd (count_rec b m k) = (b, m)" by (rule count_restore(1))
  then show "case count_rec b m k of (n, b', m') \<Rightarrow> wf_board b' \<and> masks_consistent b' m'"
    using a by (auto split: prod.splits)
qed

lemma wf_board_list: "wf_board b \<longleftrightarrow>
  list_all (\<lambda>r. list_all (\<lambda>c. 0 \<le> grid b r c \<and> grid b r c \<le> 9) [0..<N]) [0..<N]"
  unfolding wf_board_def list_all_iff set_upt by auto

lemma single_board_wf: "wf_board single_board"
  unfolding wf_board_list by (simp add: single_board_def board_of_def upt9)

lemma dead_board_wf: "wf_board dead_board"
  unfolding wf_board_list by (simp add: dead_board_def board_of_def upt9)

lemma dead_board_legal: "is_legal dead_board"
  by (simp add: is_legal_def dead_board_def board_of_def upt9 upt_rec)

lemma single_board_sole: "sole single_board 0 1"
proof -
  have "list_all (\<lambda>r. list_all (\<lambda>c. (r, c) \<noteq> (0, 1) \<longrightarrow> grid single_board r c \<noteq> 1) [0..<N]) [0..<N]"
    by (simp add: single_board_def board_of_def upt9)
  then have "\<forall>r<N. \<forall>c<N. (r, c) \<noteq> (0, 1) \<longrightarrow> grid single_board r c \<noteq> 1"
    unfolding list_all_iff set_upt by auto
  moreover have "grid single_board 0 1 = 1" by (simp add: single_board_def board_of_def)
  ultimately show ?thesis unfolding sole_def sees_def by auto
qed

theorem masks_invariant_witness:
  "wf_board single_board
   \<and> masks_consistent single_board (masks_init fresh_masks single_board)
   \<and> grid single_board 0 0 = 0
   \<and> (case apply_set single_board (masks_init fresh_masks single_board) 0 0 9 of
        (b', m') \<Rightarrow> wf_board b' \<and> masks_consistent b' m')
   \<and> sole single_board 0 1
   \<and> (case apply_clear single_board (masks_init fresh_masks single_board) 0 1 of
        (b', m') \<Rightarrow> wf_board b' \<and> masks_consistent b' m')
   \<and> (case solve_rec single_board (masks_init fresh_masks single_board) of
        (ok, b', m') \<Rightarrow> wf_board b' \<and> masks_consistent b' m')"
proof -
  have e: "grid single_board 0 0 = 0" by (simp add: single_board_def board_of_def)
  note A = masks_invariant [where b = single_board and old = fresh_masks
      and m = "masks_init fresh_masks single_board" and r = 0 and c = 0 and v = 9 and k = 2]
  note B = masks_invariant [where b = single_board and old = fresh_masks
      and m = "masks_init fresh_masks single_board" and r = 0 and c = 1 and v = 9 and k = 2]
  from A have mc: "masks_consistent single_board (masks_init fresh_masks single_board)"
    using single_board_wf by blast
  show ?thesis
    using A B mc e single_board_wf single_board_sole by simp
qed

text \<open>
  Claim C3: on a well-formed legal board that has exactly one completion \<open>solve_board\<close>
  succeeds and leaves that completion in the board; on a well-formed legal board without
  completion it reports failure (and leaves the board as it was).
\<close>

theorem solve_board_correct:
  assumes "wf_board b" and "is_legal b"
  shows "(completion b s \<and> (\<forall>s'. completion b s' \<longrightarrow> s' = s) \<longrightarrow> solve_board b = (True, s))
       \<and> ((\<forall>s'. \<not> completion b s') \<longrightarrow> solve_board b = (False, b))"
proof -
  let ?m = "masks_init fresh_masks b"
  have inv: "search_inv b ?m" using assms by (rule search_inv_init)
  have sb: "solve_board b = (fst (solve_rec b ?m), fst (snd (solve_rec b ?m)))"
    by (simp add: solve_board_def split: prod.splits)
  note sc = solve_correct(1) [OF inv]
  have "solve_board b = (True, s)" if u: "completion b s" "\<forall>s'. completion b s' \<longrightarrow> s' = s"
  proof -
    have ok: "fst (solve_rec b ?m)" using sc u(1) by (auto split: if_splits)
    then have "completion b (fst (snd (solve_rec b ?m)))" using sc by simp
    then have "fst (snd (solve_rec b ?m)) = s" using u(2) by blast
    then show ?thesis using ok sb by simp
  qed
  moreover have "solve_board b = (False, b)" if n: "\<forall>s'. \<not> completion b s'"
  proof -
    have nok: "\<not> fst (solve_rec b ?m)" using sc n by (auto split: if_splits)
    then have "snd (solve_rec b ?m) = (b, ?m)" by (rule solve_restore(1))
    then show ?thesis using nok sb by simp
  qed
  ultimately show ?thesis by blast
qed

lemma solved_board_wf: "wf_board solved_board"
  using solved_board_complete by (rule is_complete_wf)

lemma solved_board_completions: "{s. completion solved_board s} = {solved_board}"
  using solved_board_wf solved_board_not_empty solved_board_legal
  by (rule completion_of_complete)

lemma dead_board_no_completion: "\<not> completion dead_board s"
proof -
  have "masks_ok dead_board (masks_init fresh_masks dead_board)"
    using dead_board_wf by (rule masks_init_ok)
  moreover have "grid dead_board 0 0 = 0" by (simp add: dead_board_def board_of_def)
  ultimately show ?thesis
    using dead_board_candidates by (intro no_candidate_no_completion [where r = 0 and c = 0]) simp_all
qed

text \<open>\<open>solved_board\<close> with its first cell emptied: one cell to fill, one completion.\<close>

definition one_gap_board :: Board where
  "one_gap_board = grid_upd solved_board 0 0 0"

lemma solved_board_00: "grid solved_board 0 0 = 1"
  by (simp add: solved_board_def board_of_def)

lemma solved_board_fill: "grid_upd one_gap_board 0 0 1 = solved_board"
  unfolding one_gap_board_def grid_upd_twice
  using solved_board_00 by (metis grid_upd_same)

lemma one_gap_board_wf: "wf_board one_gap_board"
  unfolding one_gap_board_def using solved_board_wf by (rule wf_board_grid_upd) simp_all

lemma one_gap_board_legal: "is_legal one_gap_board"
  by (simp add: is_legal_def one_gap_board_def grid_upd_def solved_board_def board_of_def upt9 upt_rec)

lemma solved_board_row0: "n < N \<Longrightarrow> grid solved_board 0 n = int n + 1"
proof -
  have "list_all (\<lambda>n. grid solved_board 0 n = int n + 1) [0..<N]"
    by (simp add: solved_board_def board_of_def upt9)
  then show "n < N \<Longrightarrow> grid solved_board 0 n = int n + 1"
    unfolding list_all_iff set_upt by simp
qed

lemma one_gap_board_placeable: "n < N \<Longrightarrow> placeable one_gap_board 0 0 (int n + 1) \<longleftrightarrow> n = 0"
proof
  assume n: "n < N" and p: "placeable one_gap_board 0 0 (int n + 1)"
  show "n = 0"
  proof (rule ccontr)
    assume "n \<noteq> 0"
    then have "sees 0 0 0 n" using n by (simp add: sees_def)
    then have "grid one_gap_board 0 n \<noteq> int n + 1" using p unfolding placeable_def by blast
    then show False
      using solved_board_row0 [OF n] \<open>n \<noteq> 0\<close> by (simp add: one_gap_board_def grid_grid_upd)
  qed
next
  assume n: "n < N" and "n = 0"
  have l: "legal solved_board"
    using solved_board_legal is_legal_iff [OF solved_board_wf] by simp
  have "sole solved_board 0 0"
    using l solved_board_00 unfolding legal_def by simp
  then have "grid solved_board r' c' \<noteq> 1" if "sees 0 0 r' c'" for r' c'
    using that solved_board_00 unfolding sole_def by simp
  then have "grid one_gap_board r' c' \<noteq> 1" if "sees 0 0 r' c'" for r' c'
    using that by (auto simp: one_gap_board_def grid_grid_upd)
  then show "placeable one_gap_board 0 0 (int n + 1)"
    using \<open>n = 0\<close> unfolding placeable_def by simp
qed

lemma one_gap_board_completions: "{s. completion one_gap_board s} = {solved_board}"
proof -
  have e: "grid one_gap_board 0 0 = 0" by (simp add: one_gap_board_def grid_grid_upd)
  have "completion one_gap_board s \<longleftrightarrow> s = solved_board" for s
  proof -
    have "completion one_gap_board s \<longleftrightarrow>
        (\<exists>n<9. placeable one_gap_board 0 0 (int n + 1)
               \<and> completion (grid_upd one_gap_board 0 0 (int n + 1)) s)"
      by (rule completion_split) (simp_all add: e)
    also have "\<dots> \<longleftrightarrow> completion (grid_upd one_gap_board 0 0 1) s"
    proof
      assume "\<exists>n<9. placeable one_gap_board 0 0 (int n + 1)
               \<and> completion (grid_upd one_gap_board 0 0 (int n + 1)) s"
      then obtain n where n: "n < 9" "placeable one_gap_board 0 0 (int n + 1)"
        "completion (grid_upd one_gap_board 0 0 (int n + 1)) s" by blast
      from n(1,2) have "n = 0" using one_gap_board_placeable by blast
      with n(3) show "completion (grid_upd one_gap_board 0 0 1) s" by simp
    next
      assume c: "completion (grid_upd one_gap_board 0 0 1) s"
      have "placeable one_gap_board 0 0 (int 0 + 1)"
        using one_gap_board_placeable [of 0] by simp
      with c show "\<exists>n<9. placeable one_gap_board 0 0 (int n + 1)
               \<and> completion (grid_upd one_gap_board 0 0 (int n + 1)) s"
        by (intro exI [of _ 0]) simp
    qed
    also have "\<dots> \<longleftrightarrow> s = solved_board"
      using solved_board_completions unfolding solved_board_fill by blast
    finally show ?thesis .
  qed
  then show ?thesis by blast
qed

lemma one_gap_board_empty: "grid one_gap_board 0 0 = 0 \<and> any_empty one_gap_board"
proof -
  have e: "grid one_gap_board 0 0 = 0" by (simp add: one_gap_board_def grid_grid_upd)
  then have "\<exists>r<N. \<exists>c<N. grid one_gap_board r c = 0"
    by (intro exI [of _ 0] conjI) simp_all
  with e show ?thesis by (simp add: any_empty_iff)
qed

theorem solve_board_correct_witness:
  "wf_board one_gap_board \<and> is_legal one_gap_board \<and> grid one_gap_board 0 0 = 0
   \<and> completion one_gap_board solved_board
   \<and> solve_board one_gap_board = (True, solved_board)
   \<and> solved_board \<noteq> one_gap_board
   \<and> wf_board dead_board \<and> is_legal dead_board \<and> solve_board dead_board = (False, dead_board)"
proof -
  have c: "completion one_gap_board solved_board"
    and u: "\<forall>s'. completion one_gap_board s' \<longrightarrow> s' = solved_board"
    using one_gap_board_completions by blast+
  have ne: "solved_board \<noteq> one_gap_board"
    using solved_board_00 one_gap_board_empty by auto
  show ?thesis
    using solve_board_correct [OF one_gap_board_wf one_gap_board_legal, of solved_board]
      solve_board_correct [OF dead_board_wf dead_board_legal, of dead_board]
      c u ne dead_board_no_completion one_gap_board_wf one_gap_board_legal one_gap_board_empty
      dead_board_wf dead_board_legal
    by blast
qed

text \<open>
  Claim C4, for every limit \<open>k \<ge> 1\<close>: on a well-formed legal board \<open>count_solutions\<close>
  returns a value between 0 and \<open>k\<close>; it returns the number of completions when that
  number is below \<open>k\<close>, and \<open>k\<close> otherwise.
\<close>

theorem count_solutions_bounded:
  assumes "wf_board b" and "is_legal b" and "1 \<le> k"
  shows "0 \<le> fst (count_solutions b k) \<and> fst (count_solutions b k) \<le> k
       \<and> (int (card {s. completion b s}) < k \<longrightarrow>
            fst (count_solutions b k) = int (card {s. completion b s}))
       \<and> (k \<le> int (card {s. completion b s}) \<longrightarrow> fst (count_solutions b k) = k)"
  using count_solutions_min [OF assms] assms(3) by auto

text \<open>A second complete legal board: the first two rows of \<open>solved_board\<close> exchanged.\<close>

definition swapped_board :: Board where
  "swapped_board = board_of
    [[4,5,6, 7,8,9, 1,2,3],
     [1,2,3, 4,5,6, 7,8,9],
     [7,8,9, 1,2,3, 4,5,6],
     [2,3,4, 5,6,7, 8,9,1],
     [5,6,7, 8,9,1, 2,3,4],
     [8,9,1, 2,3,4, 5,6,7],
     [3,4,5, 6,7,8, 9,1,2],
     [6,7,8, 9,1,2, 3,4,5],
     [9,1,2, 3,4,5, 6,7,8]]"

lemma swapped_board_legal: "is_legal swapped_board"
  by (simp add: is_legal_def swapped_board_def board_of_def upt9 upt_rec)

lemma swapped_board_complete: "is_complete swapped_board"
  unfolding is_complete_def all_less_N
  by (simp add: swapped_board_def board_of_def upt9)

lemma extends_empty_board: "extends empty_board (board_of rows)"
  by (simp add: extends_def empty_board_def board_of_def)

lemma empty_board_wf: "wf_board empty_board"
  by (simp add: wf_board_def empty_board_def)

lemma empty_board_legal: "is_legal empty_board"
  by (simp add: is_legal_def empty_board_def upt9 upt_rec)

lemma empty_board_completions: "2 \<le> card {s. completion empty_board s}"
proof -
  have a: "completion empty_board solved_board"
    unfolding completion_def using solved_board_complete solved_board_legal
    by (simp add: solved_board_def extends_empty_board)
  have b: "completion empty_board swapped_board"
    unfolding completion_def using swapped_board_complete swapped_board_legal
    by (simp add: swapped_board_def extends_empty_board)
  have "grid swapped_board 0 0 = 4" by (simp add: swapped_board_def board_of_def)
  then have ne: "solved_board \<noteq> swapped_board" using solved_board_00 by auto
  have "card {solved_board, swapped_board} \<le> card {s. completion empty_board s}"
    using a b by (intro card_mono finite_completions) simp
  then show ?thesis using ne by simp
qed

theorem count_solutions_bounded_witness:
  "wf_board one_gap_board \<and> is_legal one_gap_board \<and> any_empty one_gap_board
   \<and> int (card {s. completion one_gap_board s}) < 2
   \<and> fst (count_solutions one_gap_board 2) = 1
   \<and> wf_board empty_board \<and> is_legal empty_board
   \<and> 2 \<le> int (card {s. completion empty_board s})
   \<and> fst (count_solutions empty_board 2) = 2"
proof -
  have c: "int (card {s. completion one_gap_board s}) = 1"
    by (simp add: one_gap_board_completions)
  have d: "2 \<le> int (card {s. completion empty_board s})"
    using empty_board_completions by simp
  show ?thesis
    using count_solutions_bounded [OF one_gap_board_wf one_gap_board_legal, of 2]
      count_solutions_bounded [OF empty_board_wf empty_board_legal, of 2] c d
      one_gap_board_wf one_gap_board_legal one_gap_board_empty empty_board_wf empty_board_legal
    by simp
qed

text \<open>
  With the limit 0 the bound of the claim fails: on a complete legal board \<open>count_rec\<close>
  returns 1 at once, before the limit is looked at.
\<close>

theorem count_solutions_bounded_counterexample:
  "wf_board solved_board \<and> is_legal solved_board \<and> (0::int) \<le> 0
   \<and> \<not> fst (count_solutions solved_board 0) \<le> 0"
proof -
  have "fst (count_solutions solved_board 0) = 1"
    by (simp add: count_solutions_def count_rec.simps solved_board_not_empty split: prod.splits)
  then show ?thesis using solved_board_wf solved_board_legal by simp
qed


section \<open>The generator yields complete legal boards\<close>

lemma shuffle_loop_perm:
  "k < length a \<Longrightarrow>
     length (fst (shuffle_loop k g a)) = length a \<and> set (fst (shuffle_loop k g a)) = set a
     \<and> distinct (fst (shuffle_loop k g a)) = distinct a"
proof (induction k arbitrary: g a)
  case 0
  then show ?case by simp
next
  case (Suc k)
  define j where "j = fst (rand g) mod (Suc k + 1)"
  define a2 where "a2 = a[Suc k := a ! j, j := a ! Suc k]"
  have "j < Suc k + 1" unfolding j_def by simp
  then have j: "j < length a" using Suc.prems by linarith
  have eq: "shuffle_loop (Suc k) g a = shuffle_loop k (snd (rand g)) a2"
    by (simp add: Let_def a2_def j_def split: prod.splits)
  have "length a2 = length a" "set a2 = set a" "distinct a2 = distinct a"
    unfolding a2_def using j Suc.prems by (simp_all add: set_swap distinct_swap)
  moreover have "k < length a2" using Suc.prems calculation(1) by simp
  ultimately show ?case using Suc.IH [of a2 "snd (rand g)"] unfolding eq by simp
qed

lemma shuffle_array_perm:
  assumes "0 < n" "n \<le> length a"
  shows "length (fst (shuffle_array g a n)) = length a"
    and "set (fst (shuffle_array g a n)) = set a"
    and "distinct (fst (shuffle_array g a n)) = distinct a"
  using shuffle_loop_perm [of "n - 1" a g] assms by (simp_all add: shuffle_array_def)

text \<open>Loops that write cells.\<close>

lemma fold_writes_out:
  "(r, c) \<notin> (\<lambda>p. (ar p, ac p)) ` set ps \<Longrightarrow>
     grid (fold (\<lambda>p b. grid_upd b (ar p) (ac p) (h p)) ps b) r c = grid b r c"
proof (induction ps arbitrary: b)
  case Nil
  then show ?case by simp
next
  case (Cons x xs)
  from Cons.prems have a: "(r, c) \<notin> (\<lambda>p. (ar p, ac p)) ` set xs" and b: "\<not> (r = ar x \<and> c = ac x)"
    by auto
  have "grid (fold (\<lambda>p b. grid_upd b (ar p) (ac p) (h p)) xs (grid_upd b (ar x) (ac x) (h x))) r c
      = grid (grid_upd b (ar x) (ac x) (h x)) r c"
    using a by (rule Cons.IH)
  also have "\<dots> = grid b r c" using b by (auto simp: grid_grid_upd)
  finally show ?case by simp
qed

lemma fold_writes_in:
  "distinct (map (\<lambda>p. (ar p, ac p)) ps) \<Longrightarrow> q \<in> set ps \<Longrightarrow>
     grid (fold (\<lambda>p b. grid_upd b (ar p) (ac p) (h p)) ps b) (ar q) (ac q) = h q"
proof (induction ps arbitrary: b)
  case Nil
  then show ?case by simp
next
  case (Cons x xs)
  from Cons.prems(1) have d: "distinct (map (\<lambda>p. (ar p, ac p)) xs)"
    and n: "(ar x, ac x) \<notin> (\<lambda>p. (ar p, ac p)) ` set xs" by simp_all
  show ?case
  proof (cases "q \<in> set xs")
    case True
    have "grid (fold (\<lambda>p b. grid_upd b (ar p) (ac p) (h p)) xs (grid_upd b (ar x) (ac x) (h x)))
        (ar q) (ac q) = h q"
      using d True by (rule Cons.IH)
    then show ?thesis by simp
  next
    case False
    then have qx: "q = x" using Cons.prems(2) by simp
    have "grid (fold (\<lambda>p b. grid_upd b (ar p) (ac p) (h p)) xs (grid_upd b (ar x) (ac x) (h x)))
        (ar x) (ac x) = grid (grid_upd b (ar x) (ac x) (h x)) (ar x) (ac x)"
      using n by (rule fold_writes_out)
    then show ?thesis unfolding qx by (simp add: grid_grid_upd)
  qed
qed

text \<open>A loop that rewrites each cell of a list of distinct cells from its own old value.\<close>

lemma fold_cells:
  "distinct cs \<Longrightarrow>
     grid (fold (\<lambda>p b. grid_upd b (fst p) (snd p) (f (grid b (fst p) (snd p)))) cs b) r c
       = (if (r, c) \<in> set cs then f (grid b r c) else grid b r c)"
proof (induction cs arbitrary: b)
  case Nil
  then show ?case by simp
next
  case (Cons p cs)
  let ?b = "grid_upd b (fst p) (snd p) (f (grid b (fst p) (snd p)))"
  from Cons.prems have d: "distinct cs" and n: "p \<notin> set cs" by simp_all
  have ih: "grid (fold (\<lambda>p b. grid_upd b (fst p) (snd p) (f (grid b (fst p) (snd p)))) cs ?b) r c
       = (if (r, c) \<in> set cs then f (grid ?b r c) else grid ?b r c)"
    using d by (rule Cons.IH)
  show ?case
  proof (cases "(r, c) = p")
    case True
    then have "(r, c) \<notin> set cs" using n by simp
    then show ?thesis using ih True by (auto simp: grid_grid_upd)
  next
    case False
    then have "\<not> (r = fst p \<and> c = snd p)" by (cases p) auto
    then have "grid ?b r c = grid b r c" by (auto simp: grid_grid_upd)
    then show ?thesis using ih False by auto
  qed
qed

lemma fold_product2:
  "fold (\<lambda>i. fold (\<lambda>j. h i j) ys) xs = fold (\<lambda>p. h (fst p) (snd p)) (List.product xs ys)"
  by (simp add: fold_product case_prod_unfold)

lemma base_complete_grid:
  assumes "r < N" "c < N"
  shows "grid (base_complete b) r c = int ((r * 3 + r div 3 + c) mod 9) + 1"
proof -
  let ?h = "\<lambda>p. int ((fst p * 3 + fst p div 3 + snd p) mod 9) + 1"
  have eq: "base_complete b = fold (\<lambda>p b. grid_upd b (fst p) (snd p) (?h p)) cells b"
    unfolding base_complete_def cells_def fold_product2 ..
  have d: "distinct (map (\<lambda>p. (fst p, snd p)) cells)"
    using distinct_cells by simp
  have "(r, c) \<in> set cells" using assms by (simp add: set_cells)
  then have "grid (fold (\<lambda>p b. grid_upd b (fst p) (snd p) (?h p)) cells b) (fst (r, c)) (snd (r, c))
      = ?h (r, c)"
    using d by (intro fold_writes_in)
  then show ?thesis unfolding eq by simp
qed

definition band_perm :: "(nat \<Rightarrow> nat) \<Rightarrow> bool" where
  "band_perm p \<longleftrightarrow>
     (\<forall>i<N. p i < N) \<and> (\<forall>i<N. \<forall>j<N. p i = p j \<longrightarrow> i = j)
     \<and> (\<forall>i<N. \<forall>j<N. i div BOX = j div BOX \<longrightarrow> p i div BOX = p j div BOX)"

lemma band_perm_id: "band_perm (\<lambda>i. i)"
  by (simp add: band_perm_def)

lemma band_permD:
  assumes "band_perm p"
  shows "i < N \<Longrightarrow> p i < N"
    and "i < N \<Longrightarrow> j < N \<Longrightarrow> p i = p j \<Longrightarrow> i = j"
    and "i < N \<Longrightarrow> j < N \<Longrightarrow> i div BOX = j div BOX \<Longrightarrow> p i div BOX = p j div BOX"
proof -
  from assms have a: "\<forall>i<N. p i < N" and b: "\<forall>i<N. \<forall>j<N. p i = p j \<longrightarrow> i = j"
    and c: "\<forall>i<N. \<forall>j<N. i div BOX = j div BOX \<longrightarrow> p i div BOX = p j div BOX"
    unfolding band_perm_def by (rule conjunct1, rule conjunct1 [OF conjunct2],
        rule conjunct2 [OF conjunct2])
  show "i < N \<Longrightarrow> p i < N" using a by blast
  show "i < N \<Longrightarrow> j < N \<Longrightarrow> p i = p j \<Longrightarrow> i = j" using b by blast
  show "i < N \<Longrightarrow> j < N \<Longrightarrow> i div BOX = j div BOX \<Longrightarrow> p i div BOX = p j div BOX"
    using c by blast
qed

lemma sees_transform:
  assumes p: "band_perm p" and q: "band_perm q" and rc: "r < N" "c < N" and s: "sees r c r' c'"
  shows "sees (p r) (q c) (p r') (q c')"
proof -
  from s have rc': "r' < N" "c' < N" and ne: "(r', c') \<noteq> (r, c)"
    and u: "r' = r \<or> c' = c \<or> box_index r' c' = box_index r c"
    unfolding sees_def by blast+
  have lt: "p r' < N" "q c' < N" "q c < N"
    by (rule band_permD(1) [OF p rc'(1)], rule band_permD(1) [OF q rc'(2)],
        rule band_permD(1) [OF q rc(2)])
  have "r' = r" if "p r' = p r" using band_permD(2) [OF p rc'(1) rc(1) that] .
  moreover have "c' = c" if "q c' = q c" using band_permD(2) [OF q rc'(2) rc(2) that] .
  ultimately have ne': "(p r', q c') \<noteq> (p r, q c)" using ne by blast
  have "p r' = p r \<or> q c' = q c \<or> box_index (p r') (q c') = box_index (p r) (q c)"
  proof (cases "r' = r \<or> c' = c")
    case True
    then show ?thesis by blast
  next
    case False
    then have bi: "box_index r' c' = box_index r c" using u by blast
    have d: "r' div BOX = r div BOX \<and> c' div BOX = c div BOX"
      using bi unfolding box_index_eq_iff [OF rc'(2) rc(2)] .
    have "p r' div BOX = p r div BOX"
      using d by (intro band_permD(3) [OF p rc'(1) rc(1)]) blast
    moreover have "q c' div BOX = q c div BOX"
      using d by (intro band_permD(3) [OF q rc'(2) rc(2)]) blast
    ultimately have "box_index (p r') (q c') = box_index (p r) (q c)"
      unfolding box_index_eq_iff [OF lt(2) lt(3)] by blast
    then show ?thesis by blast
  qed
  then show ?thesis unfolding sees_def using lt ne' by blast
qed

lemma is_completeD:
  "is_complete b \<Longrightarrow> r < N \<Longrightarrow> c < N \<Longrightarrow> 1 \<le> grid b r c \<and> grid b r c \<le> 9"
  unfolding is_complete_def by blast

lemma legalD:
  "legal b \<Longrightarrow> r < N \<Longrightarrow> c < N \<Longrightarrow> grid b r c \<noteq> 0 \<Longrightarrow> sees r c r' c' \<Longrightarrow>
     grid b r' c' \<noteq> grid b r c"
  unfolding legal_def sole_def by blast

lemma transform_valid:
  assumes c: "is_complete b" and l: "legal b" and p: "band_perm p" and q: "band_perm q"
    and inj: "\<And>v w. 1 \<le> v \<and> v \<le> 9 \<Longrightarrow> 1 \<le> w \<and> w \<le> 9 \<Longrightarrow> f v = f w \<Longrightarrow> v = w"
    and rng: "\<And>v. 1 \<le> v \<and> v \<le> 9 \<Longrightarrow> 1 \<le> f v \<and> f v \<le> (9 :: int)"
    and eq: "\<And>r c. r < N \<Longrightarrow> c < N \<Longrightarrow> grid b' r c = f (grid b (p r) (q c))"
  shows "is_complete b' \<and> legal b'"
proof
  have v: "1 \<le> grid b (p r) (q c) \<and> grid b (p r) (q c) \<le> 9" if "r < N" "c < N" for r c
    by (rule is_completeD [OF c band_permD(1) [OF p that(1)] band_permD(1) [OF q that(2)]])
  show "is_complete b'"
    unfolding is_complete_def
  proof (intro allI impI)
    fix r c assume rc: "r < N" "c < N"
    show "1 \<le> grid b' r c \<and> grid b' r c \<le> 9"
      unfolding eq [OF rc] by (rule rng [OF v [OF rc]])
  qed
  show "legal b'"
    unfolding legal_def sole_def
  proof (intro allI impI)
    fix r c r' c'
    assume rc: "r < N" "c < N" and s: "sees r c r' c'"
    from s have rc': "r' < N" "c' < N" unfolding sees_def by blast+
    have s': "sees (p r) (q c) (p r') (q c')" using p q rc s by (rule sees_transform)
    have nz: "grid b (p r) (q c) \<noteq> 0" using v [OF rc] by linarith
    have ne: "grid b (p r') (q c') \<noteq> grid b (p r) (q c)"
      by (rule legalD [OF l band_permD(1) [OF p rc(1)] band_permD(1) [OF q rc(2)] nz s'])
    have "f (grid b (p r') (q c')) \<noteq> f (grid b (p r) (q c))"
    proof
      assume "f (grid b (p r') (q c')) = f (grid b (p r) (q c))"
      then have "grid b (p r') (q c') = grid b (p r) (q c)"
        by (rule inj [OF v [OF rc'] v [OF rc]])
      then show False using ne by blast
    qed
    then show "grid b' r' c' \<noteq> grid b' r c"
      unfolding eq [OF rc] eq [OF rc'] .
  qed
qed

lemma solved_board_legal': "legal solved_board"
  using solved_board_legal is_legal_iff [OF solved_board_wf] by simp

lemma base_complete_solved:
  assumes "r < N" "c < N"
  shows "grid (base_complete b) r c = grid solved_board r c"
proof -
  have "list_all (\<lambda>r. list_all (\<lambda>c. int ((r * 3 + r div 3 + c) mod 9) + 1 = grid solved_board r c)
          [0..<N]) [0..<N]"
    by (simp add: solved_board_def board_of_def upt9)
  then have "int ((r * 3 + r div 3 + c) mod 9) + 1 = grid solved_board r c"
    using assms unfolding list_all_iff set_upt by simp
  then show ?thesis using base_complete_grid [OF assms] by simp
qed

lemma base_complete_valid: "is_complete (base_complete b) \<and> legal (base_complete b)"
proof (rule transform_valid [where b = solved_board and p = "\<lambda>i. i" and q = "\<lambda>i. i"
      and f = "\<lambda>v. v"])
  show "is_complete solved_board" by (rule solved_board_complete)
  show "legal solved_board" by (rule solved_board_legal')
  show "band_perm (\<lambda>i. i)" by (rule band_perm_id)
  show "band_perm (\<lambda>i. i)" by (rule band_perm_id)
  show "\<And>r c. r < N \<Longrightarrow> c < N \<Longrightarrow> grid (base_complete b) r c = grid solved_board r c"
    by (rule base_complete_solved)
qed simp_all

lemma permute_digits_grid:
  assumes "r < N" "c < N"
  shows "grid (fst (permute_digits g b)) r c
       = (undefined # fst (shuffle_array g [1, 2, 3, 4, 5, 6, 7, 8, 9] 9)) ! nat (grid b r c)"
proof -
  let ?tab = "undefined # fst (shuffle_array g [1, 2, 3, 4, 5, 6, 7, 8, 9 :: int] 9)"
  have "fst (permute_digits g b)
      = fold (\<lambda>r. fold (\<lambda>c b. grid_upd b r c (?tab ! nat (grid b r c))) [0..<N]) [0..<N] b"
    by (simp add: permute_digits_def Let_def split: prod.splits)
  also have "\<dots> = fold (\<lambda>p b. grid_upd b (fst p) (snd p) (?tab ! nat (grid b (fst p) (snd p)))) cells b"
    unfolding cells_def fold_product2 ..
  finally have eq: "fst (permute_digits g b)
      = fold (\<lambda>p b. grid_upd b (fst p) (snd p) (?tab ! nat (grid b (fst p) (snd p)))) cells b" .
  have "(r, c) \<in> set cells" using assms by (simp add: set_cells)
  then show ?thesis
    unfolding eq using fold_cells [OF distinct_cells, of "\<lambda>v. ?tab ! nat v" b r c] by simp
qed

lemma permute_digits_valid:
  assumes c: "is_complete b" and l: "legal b"
  shows "is_complete (fst (permute_digits g b)) \<and> legal (fst (permute_digits g b))"
proof -
  define m where "m = fst (shuffle_array g [1, 2, 3, 4, 5, 6, 7, 8, 9 :: int] 9)"
  define f where "f = (\<lambda>v. (undefined # m) ! nat v)"
  have len: "length m = 9" and st: "set m = set [1, 2, 3, 4, 5, 6, 7, 8, 9 :: int]"
    and dist: "distinct m"
    unfolding m_def
    using shuffle_array_perm [of 9 "[1, 2, 3, 4, 5, 6, 7, 8, 9 :: int]" g] by simp_all
  have fv: "f v = m ! (nat v - 1)" if "1 \<le> v \<and> v \<le> 9" for v
  proof -
    have "nat v = Suc (nat v - 1)" using that by simp
    then have "(undefined # m) ! nat v = (undefined # m) ! Suc (nat v - 1)" by simp
    then show ?thesis unfolding f_def by simp
  qed
  have idx: "nat v - 1 < length m" if "1 \<le> v \<and> v \<le> 9" for v
  proof -
    have "nat v \<le> 9" using that by linarith
    then show ?thesis unfolding len by linarith
  qed
  show ?thesis
  proof (rule transform_valid [where b = b and p = "\<lambda>i. i" and q = "\<lambda>i. i" and f = f])
    show "is_complete b" by (rule c)
    show "legal b" by (rule l)
    show "band_perm (\<lambda>i. i)" by (rule band_perm_id)
    show "band_perm (\<lambda>i. i)" by (rule band_perm_id)
  next
    fix v w :: int
    assume v: "1 \<le> v \<and> v \<le> 9" and w: "1 \<le> w \<and> w \<le> 9" and e: "f v = f w"
    have "m ! (nat v - 1) = m ! (nat w - 1)" using e fv [OF v] fv [OF w] by simp
    then have "nat v - 1 = nat w - 1"
      using nth_eq_iff_index_eq [OF dist idx [OF v] idx [OF w]] by simp
    then show "v = w" using v w by linarith
  next
    fix v :: int
    assume v: "1 \<le> v \<and> v \<le> 9"
    have "m ! (nat v - 1) \<in> set m" using idx [OF v] by (rule nth_mem)
    then have "m ! (nat v - 1) \<in> set [1, 2, 3, 4, 5, 6, 7, 8, 9 :: int]" unfolding st .
    then have "1 \<le> m ! (nat v - 1) \<and> m ! (nat v - 1) \<le> 9" by auto
    then show "1 \<le> f v \<and> f v \<le> 9" unfolding fv [OF v] .
  next
    fix r c assume "r < N" "c < N"
    then show "grid (fst (permute_digits g b)) r c = f (grid b r c)"
      unfolding f_def m_def by (rule permute_digits_grid)
  qed
qed

definition within_band :: "nat \<Rightarrow> nat list \<Rightarrow> nat \<Rightarrow> nat" where
  "within_band k rows r = (if r div 3 = k then rows ! (r mod 3) else r)"

definition across_bands :: "nat list \<Rightarrow> nat \<Rightarrow> nat" where
  "across_bands bands r = bands ! (r div 3) * 3 + r mod 3"

lemma div_mod_3_eq:
  fixes i j :: nat
  assumes "i div 3 = j div 3" "i mod 3 = j mod 3"
  shows "i = j"
proof -
  have "i = i div 3 * 3 + i mod 3" by simp
  also have "\<dots> = j div 3 * 3 + j mod 3" unfolding assms ..
  also have "\<dots> = j" by simp
  finally show ?thesis .
qed

lemma within_band_perm:
  assumes k: "k < 3" and len: "length rows = 3" and dist: "distinct rows"
    and st: "set rows = {k * 3, k * 3 + 1, k * 3 + 2}"
  shows "band_perm (within_band k rows)"
proof -
  have el: "rows ! (i mod 3) div 3 = k \<and> rows ! (i mod 3) < N" for i
  proof -
    have "i mod 3 < length rows" unfolding len by simp
    then have "rows ! (i mod 3) \<in> set rows" by (rule nth_mem)
    then have "rows ! (i mod 3) = k * 3 \<or> rows ! (i mod 3) = k * 3 + 1 \<or> rows ! (i mod 3) = k * 3 + 2"
      unfolding st by blast
    then show ?thesis using k by (elim disjE) simp_all
  qed
  have dv: "within_band k rows i div 3 = i div 3" for i
    using el [of i] by (simp add: within_band_def)
  have lt: "within_band k rows i < N" if "i < N" for i
    using el [of i] that by (simp add: within_band_def)
  have inj: "i = j" if e: "within_band k rows i = within_band k rows j" for i j
  proof -
    have d: "i div 3 = j div 3" using dv [of i] dv [of j] e by simp
    show ?thesis
    proof (cases "i div 3 = k")
      case True
      then have "rows ! (i mod 3) = rows ! (j mod 3)"
        using e d by (simp add: within_band_def)
      moreover have "i mod 3 < length rows" "j mod 3 < length rows" unfolding len by simp_all
      ultimately have "i mod 3 = j mod 3"
        using nth_eq_iff_index_eq [OF dist] by blast
      with d show ?thesis by (rule div_mod_3_eq)
    next
      case False
      then show ?thesis using e d by (simp add: within_band_def)
    qed
  qed
  show ?thesis
    unfolding band_perm_def
  proof (intro conjI allI impI)
    fix i assume "i < N" then show "within_band k rows i < N" by (rule lt)
  next
    fix i j assume "within_band k rows i = within_band k rows j"
    then show "i = j" by (rule inj)
  next
    fix i j :: nat assume "i div BOX = j div BOX"
    then show "within_band k rows i div BOX = within_band k rows j div BOX"
      unfolding dv .
  qed
qed

lemma across_bands_perm:
  assumes len: "length bands = 3" and dist: "distinct bands" and st: "set bands = {0, 1, 2}"
  shows "band_perm (across_bands bands)"
proof -
  have el: "bands ! (i div 3) < 3" if "i < N" for i
  proof -
    have "i div 3 < length bands" unfolding len using that by simp
    then have "bands ! (i div 3) \<in> set bands" by (rule nth_mem)
    then show ?thesis unfolding st by auto
  qed
  have dv: "across_bands bands i div 3 = bands ! (i div 3)" for i
    by (simp add: across_bands_def)
  have md: "across_bands bands i mod 3 = i mod 3" for i
    by (simp add: across_bands_def)
  have lt: "across_bands bands i < N" if "i < N" for i
  proof -
    have "i mod 3 < 3" by simp
    then show ?thesis using el [OF that] unfolding across_bands_def by linarith
  qed
  have inj: "i = j" if ij: "i < N" "j < N" and e: "across_bands bands i = across_bands bands j" for i j
  proof -
    have "bands ! (i div 3) = bands ! (j div 3)" using dv [of i] dv [of j] e by simp
    moreover have "i div 3 < length bands" "j div 3 < length bands"
      unfolding len using ij by simp_all
    ultimately have d: "i div 3 = j div 3"
      using nth_eq_iff_index_eq [OF dist] by blast
    have "i mod 3 = j mod 3" using md [of i] md [of j] e by simp
    with d show ?thesis by (rule div_mod_3_eq)
  qed
  show ?thesis
    unfolding band_perm_def
  proof (intro conjI allI impI)
    fix i assume "i < N" then show "across_bands bands i < N" by (rule lt)
  next
    fix i j assume "i < N" "j < N" "across_bands bands i = across_bands bands j"
    then show "i = j" by (rule inj)
  next
    fix i j :: nat assume "i div BOX = j div BOX"
    then show "across_bands bands i div BOX = across_bands bands j div BOX"
      unfolding dv by simp
  qed
qed

lemma upt3: "[0..<3] = [0, 1, 2]"
  by (simp add: upt_rec)

lemma band_row: "r div 3 * 3 + r mod 3 = (r :: nat)"
  by simp

lemma shuffle_rows_band_grid:
  assumes rc: "r < N" "c < N"
  shows "grid (fst (shuffle_rows_band k (b, g))) r c
       = grid b (within_band k (fst (shuffle_array g [k * 3, k * 3 + 1, k * 3 + 2] 3)) r) c"
proof -
  define rows where "rows = fst (shuffle_array g [k * 3, k * 3 + 1, k * 3 + 2] 3)"
  define ps where "ps = List.product [0..<3] [0..<N]"
  let ?ar = "\<lambda>p :: nat \<times> nat. k * 3 + fst p"
  let ?ac = "\<lambda>p :: nat \<times> nat. snd p"
  let ?h = "\<lambda>p. grid b (rows ! fst p) (snd p)"
  have "fst (shuffle_rows_band k (b, g))
      = fold (\<lambda>i. fold (\<lambda>c b'. grid_upd b' (k * 3 + i) c (grid b (rows ! i) c)) [0..<N]) [0..<3] b"
    by (simp add: shuffle_rows_band_def Let_def rows_def split: prod.splits)
  also have "\<dots> = fold (\<lambda>p b'. grid_upd b' (?ar p) (?ac p) (?h p)) ps b"
    unfolding ps_def fold_product2 ..
  finally have eq: "fst (shuffle_rows_band k (b, g))
      = fold (\<lambda>p b'. grid_upd b' (?ar p) (?ac p) (?h p)) ps b" .
  have "inj_on (\<lambda>p. (?ar p, ?ac p)) (set ps)"
    by (rule inj_onI) (simp add: prod_eq_iff)
  then have d: "distinct (map (\<lambda>p. (?ar p, ?ac p)) ps)"
    unfolding ps_def by (simp add: distinct_map distinct_product)
  show ?thesis
  proof (cases "r div 3 = k")
    case True
    have q: "(r mod 3, c) \<in> set ps" using rc by (simp add: ps_def)
    have "grid (fold (\<lambda>p b'. grid_upd b' (?ar p) (?ac p) (?h p)) ps b)
        (?ar (r mod 3, c)) (?ac (r mod 3, c)) = ?h (r mod 3, c)"
      using d q by (rule fold_writes_in)
    moreover have "?ar (r mod 3, c) = r" using band_row [of r] True by simp
    ultimately show ?thesis
      unfolding eq rows_def [symmetric] using True by (simp add: within_band_def)
  next
    case False
    have "(r, c) \<notin> (\<lambda>p. (?ar p, ?ac p)) ` set ps"
    proof
      assume "(r, c) \<in> (\<lambda>p. (?ar p, ?ac p)) ` set ps"
      then obtain i where "i < 3" "r = k * 3 + i" by (auto simp: ps_def)
      then have "r div 3 = k" by simp
      then show False using False by simp
    qed
    then have "grid (fold (\<lambda>p b'. grid_upd b' (?ar p) (?ac p) (?h p)) ps b) r c = grid b r c"
      by (rule fold_writes_out)
    then show ?thesis
      unfolding eq rows_def [symmetric] using False by (simp add: within_band_def)
  qed
qed

lemma shuffle_cols_stack_grid:
  assumes rc: "r < N" "c < N"
  shows "grid (fst (shuffle_cols_stack k (b, g))) r c
       = grid b r (within_band k (fst (shuffle_array g [k * 3, k * 3 + 1, k * 3 + 2] 3)) c)"
proof -
  define cols where "cols = fst (shuffle_array g [k * 3, k * 3 + 1, k * 3 + 2] 3)"
  define ps where "ps = List.product [0..<3] [0..<N]"
  let ?ar = "\<lambda>p :: nat \<times> nat. snd p"
  let ?ac = "\<lambda>p :: nat \<times> nat. k * 3 + fst p"
  let ?h = "\<lambda>p. grid b (snd p) (cols ! fst p)"
  have "fst (shuffle_cols_stack k (b, g))
      = fold (\<lambda>i. fold (\<lambda>r b'. grid_upd b' r (k * 3 + i) (grid b r (cols ! i))) [0..<N]) [0..<3] b"
    by (simp add: shuffle_cols_stack_def Let_def cols_def split: prod.splits)
  also have "\<dots> = fold (\<lambda>p b'. grid_upd b' (?ar p) (?ac p) (?h p)) ps b"
    unfolding ps_def fold_product2 ..
  finally have eq: "fst (shuffle_cols_stack k (b, g))
      = fold (\<lambda>p b'. grid_upd b' (?ar p) (?ac p) (?h p)) ps b" .
  have "inj_on (\<lambda>p. (?ar p, ?ac p)) (set ps)"
    by (rule inj_onI) (simp add: prod_eq_iff)
  then have d: "distinct (map (\<lambda>p. (?ar p, ?ac p)) ps)"
    unfolding ps_def by (simp add: distinct_map distinct_product)
  show ?thesis
  proof (cases "c div 3 = k")
    case True
    have q: "(c mod 3, r) \<in> set ps" using rc by (simp add: ps_def)
    have "grid (fold (\<lambda>p b'. grid_upd b' (?ar p) (?ac p) (?h p)) ps b)
        (?ar (c mod 3, r)) (?ac (c mod 3, r)) = ?h (c mod 3, r)"
      using d q by (rule fold_writes_in)
    moreover have "?ac (c mod 3, r) = c" using band_row [of c] True by simp
    ultimately show ?thesis
      unfolding eq cols_def [symmetric] using True by (simp add: within_band_def)
  next
    case False
    have "(r, c) \<notin> (\<lambda>p. (?ar p, ?ac p)) ` set ps"
    proof
      assume "(r, c) \<in> (\<lambda>p. (?ar p, ?ac p)) ` set ps"
      then obtain i where "i < 3" "c = k * 3 + i" by (auto simp: ps_def)
      then have "c div 3 = k" by simp
      then show False using False by simp
    qed
    then have "grid (fold (\<lambda>p b'. grid_upd b' (?ar p) (?ac p) (?h p)) ps b) r c = grid b r c"
      by (rule fold_writes_out)
    then show ?thesis
      unfolding eq cols_def [symmetric] using False by (simp add: within_band_def)
  qed
qed

lemma band_cell_inj:
  fixes i r j s :: nat
  assumes "r < 3" "s < 3" "i * 3 + r = j * 3 + s"
  shows "i = j \<and> r = s"
proof -
  have "(i * 3 + r) div 3 = i" "(j * 3 + s) div 3 = j" using assms(1,2) by simp_all
  then have "i = j" using assms(3) by simp
  then show ?thesis using assms(3) by simp
qed

lemma shuffle_bands_grid:
  assumes rc: "r < N" "c < N"
  shows "grid (fst (shuffle_bands g b)) r c
       = grid b (across_bands (fst (shuffle_array g [0, 1, 2] 3)) r) c"
proof -
  define bands where "bands = fst (shuffle_array g [0, 1, 2 :: nat] 3)"
  define ps where "ps = List.product [0..<3] (List.product [0..<3] [0..<N])"
  let ?ar = "\<lambda>q :: nat \<times> nat \<times> nat. fst q * 3 + fst (snd q)"
  let ?ac = "\<lambda>q :: nat \<times> nat \<times> nat. snd (snd q)"
  let ?h = "\<lambda>q. grid b (bands ! fst q * 3 + fst (snd q)) (snd (snd q))"
  have "fst (shuffle_bands g b)
      = fold (\<lambda>i. fold (\<lambda>r. fold (\<lambda>c b'.
                 grid_upd b' (i * 3 + r) c (grid b (bands ! i * 3 + r) c)) [0..<N]) [0..<3])
            [0..<3] b"
    by (simp add: shuffle_bands_def Let_def bands_def split: prod.splits)
  also have "\<dots> = fold (\<lambda>q b'. grid_upd b' (?ar q) (?ac q) (?h q)) ps b"
    unfolding ps_def fold_product2 ..
  finally have eq: "fst (shuffle_bands g b)
      = fold (\<lambda>q b'. grid_upd b' (?ar q) (?ac q) (?h q)) ps b" .
  have "inj_on (\<lambda>q. (?ar q, ?ac q)) (set ps)"
  proof (rule inj_onI)
    fix x y assume x: "x \<in> set ps" and y: "y \<in> set ps"
      and e: "(?ar x, ?ac x) = (?ar y, ?ac y)"
    have "fst (snd x) < 3" "fst (snd y) < 3" using x y by (auto simp: ps_def)
    then have "fst x = fst y \<and> fst (snd x) = fst (snd y)"
      using e by (intro band_cell_inj) simp_all
    then show "x = y" using e by (simp add: prod_eq_iff)
  qed
  then have d: "distinct (map (\<lambda>q. (?ar q, ?ac q)) ps)"
    unfolding ps_def by (simp add: distinct_map distinct_product)
  have q: "(r div 3, (r mod 3, c)) \<in> set ps" using rc by (simp add: ps_def)
  have "grid (fold (\<lambda>q b'. grid_upd b' (?ar q) (?ac q) (?h q)) ps b)
      (?ar (r div 3, (r mod 3, c))) (?ac (r div 3, (r mod 3, c))) = ?h (r div 3, (r mod 3, c))"
    using d q by (rule fold_writes_in)
  moreover have "?ar (r div 3, (r mod 3, c)) = r" using band_row [of r] by simp
  ultimately show ?thesis
    unfolding eq bands_def [symmetric] by (simp add: across_bands_def)
qed

lemma shuffle_stacks_grid:
  assumes rc: "r < N" "c < N"
  shows "grid (fst (shuffle_stacks g b)) r c
       = grid b r (across_bands (fst (shuffle_array g [0, 1, 2] 3)) c)"
proof -
  define stacks where "stacks = fst (shuffle_array g [0, 1, 2 :: nat] 3)"
  define ps where "ps = List.product [0..<3] (List.product [0..<3] [0..<N])"
  let ?ar = "\<lambda>q :: nat \<times> nat \<times> nat. snd (snd q)"
  let ?ac = "\<lambda>q :: nat \<times> nat \<times> nat. fst q * 3 + fst (snd q)"
  let ?h = "\<lambda>q. grid b (snd (snd q)) (stacks ! fst q * 3 + fst (snd q))"
  have "fst (shuffle_stacks g b)
      = fold (\<lambda>i. fold (\<lambda>c. fold (\<lambda>r b'.
                 grid_upd b' r (i * 3 + c) (grid b r (stacks ! i * 3 + c))) [0..<N]) [0..<3])
            [0..<3] b"
    by (simp add: shuffle_stacks_def Let_def stacks_def split: prod.splits)
  also have "\<dots> = fold (\<lambda>q b'. grid_upd b' (?ar q) (?ac q) (?h q)) ps b"
    unfolding ps_def fold_product2 ..
  finally have eq: "fst (shuffle_stacks g b)
      = fold (\<lambda>q b'. grid_upd b' (?ar q) (?ac q) (?h q)) ps b" .
  have "inj_on (\<lambda>q. (?ar q, ?ac q)) (set ps)"
  proof (rule inj_onI)
    fix x y assume x: "x \<in> set ps" and y: "y \<in> set ps"
      and e: "(?ar x, ?ac x) = (?ar y, ?ac y)"
    have "fst (snd x) < 3" "fst (snd y) < 3" using x y by (auto simp: ps_def)
    then have "fst x = fst y \<and> fst (snd x) = fst (snd y)"
      using e by (intro band_cell_inj) simp_all
    then show "x = y" using e by (simp add: prod_eq_iff)
  qed
  then have d: "distinct (map (\<lambda>q. (?ar q, ?ac q)) ps)"
    unfolding ps_def by (simp add: distinct_map distinct_product)
  have q: "(c div 3, (c mod 3, r)) \<in> set ps" using rc by (simp add: ps_def)
  have "grid (fold (\<lambda>q b'. grid_upd b' (?ar q) (?ac q) (?h q)) ps b)
      (?ar (c div 3, (c mod 3, r))) (?ac (c div 3, (c mod 3, r))) = ?h (c div 3, (c mod 3, r))"
    using d q by (rule fold_writes_in)
  moreover have "?ac (c div 3, (c mod 3, r)) = c" using band_row [of c] by simp
  ultimately show ?thesis
    unfolding eq stacks_def [symmetric] by (simp add: across_bands_def)
qed

lemma shuffle_rows_band_valid:
  assumes k: "k < 3" and c: "is_complete (fst x)" and l: "legal (fst x)"
  shows "is_complete (fst (shuffle_rows_band k x)) \<and> legal (fst (shuffle_rows_band k x))"
proof -
  obtain b g where x: "x = (b, g)" by (cases x)
  define rows where "rows = fst (shuffle_array g [k * 3, k * 3 + 1, k * 3 + 2] 3)"
  have "length rows = 3" "distinct rows" "set rows = {k * 3, k * 3 + 1, k * 3 + 2}"
    unfolding rows_def
    using shuffle_array_perm [of 3 "[k * 3, k * 3 + 1, k * 3 + 2]" g] by auto
  then have p: "band_perm (within_band k rows)" by (intro within_band_perm k)
  show ?thesis
    unfolding x
  proof (rule transform_valid [where b = b and p = "within_band k rows" and q = "\<lambda>i. i"
        and f = "\<lambda>v. v"])
    show "is_complete b" using c by (simp add: x)
    show "legal b" using l by (simp add: x)
    show "band_perm (within_band k rows)" by (rule p)
    show "band_perm (\<lambda>i. i)" by (rule band_perm_id)
    show "\<And>r c. r < N \<Longrightarrow> c < N \<Longrightarrow>
        grid (fst (shuffle_rows_band k (b, g))) r c = grid b (within_band k rows r) c"
      unfolding rows_def by (rule shuffle_rows_band_grid)
  qed simp_all
qed

lemma shuffle_cols_stack_valid:
  assumes k: "k < 3" and c: "is_complete (fst x)" and l: "legal (fst x)"
  shows "is_complete (fst (shuffle_cols_stack k x)) \<and> legal (fst (shuffle_cols_stack k x))"
proof -
  obtain b g where x: "x = (b, g)" by (cases x)
  define cols where "cols = fst (shuffle_array g [k * 3, k * 3 + 1, k * 3 + 2] 3)"
  have "length cols = 3" "distinct cols" "set cols = {k * 3, k * 3 + 1, k * 3 + 2}"
    unfolding cols_def
    using shuffle_array_perm [of 3 "[k * 3, k * 3 + 1, k * 3 + 2]" g] by auto
  then have p: "band_perm (within_band k cols)" by (intro within_band_perm k)
  show ?thesis
    unfolding x
  proof (rule transform_valid [where b = b and p = "\<lambda>i. i" and q = "within_band k cols"
        and f = "\<lambda>v. v"])
    show "is_complete b" using c by (simp add: x)
    show "legal b" using l by (simp add: x)
    show "band_perm (within_band k cols)" by (rule p)
    show "band_perm (\<lambda>i. i)" by (rule band_perm_id)
    show "\<And>r c. r < N \<Longrightarrow> c < N \<Longrightarrow>
        grid (fst (shuffle_cols_stack k (b, g))) r c = grid b r (within_band k cols c)"
      unfolding cols_def by (rule shuffle_cols_stack_grid)
  qed simp_all
qed

lemma shuffle_rows_within_bands_valid:
  assumes "is_complete b" "legal b"
  shows "is_complete (fst (shuffle_rows_within_bands g b))
       \<and> legal (fst (shuffle_rows_within_bands g b))"
proof -
  let ?x0 = "(b, g)"
  let ?x1 = "shuffle_rows_band 0 ?x0"
  let ?x2 = "shuffle_rows_band 1 ?x1"
  have eq: "shuffle_rows_within_bands g b = shuffle_rows_band 2 ?x2"
    by (simp add: shuffle_rows_within_bands_def upt3)
  have "is_complete (fst ?x0) \<and> legal (fst ?x0)" using assms by simp
  then have "is_complete (fst ?x1) \<and> legal (fst ?x1)"
    by (intro shuffle_rows_band_valid) simp_all
  then have "is_complete (fst ?x2) \<and> legal (fst ?x2)"
    by (intro shuffle_rows_band_valid) simp_all
  then show ?thesis
    unfolding eq by (intro shuffle_rows_band_valid) simp_all
qed

lemma shuffle_cols_within_stacks_valid:
  assumes "is_complete b" "legal b"
  shows "is_complete (fst (shuffle_cols_within_stacks g b))
       \<and> legal (fst (shuffle_cols_within_stacks g b))"
proof -
  let ?x0 = "(b, g)"
  let ?x1 = "shuffle_cols_stack 0 ?x0"
  let ?x2 = "shuffle_cols_stack 1 ?x1"
  have eq: "shuffle_cols_within_stacks g b = shuffle_cols_stack 2 ?x2"
    by (simp add: shuffle_cols_within_stacks_def upt3)
  have "is_complete (fst ?x0) \<and> legal (fst ?x0)" using assms by simp
  then have "is_complete (fst ?x1) \<and> legal (fst ?x1)"
    by (intro shuffle_cols_stack_valid) simp_all
  then have "is_complete (fst ?x2) \<and> legal (fst ?x2)"
    by (intro shuffle_cols_stack_valid) simp_all
  then show ?thesis
    unfolding eq by (intro shuffle_cols_stack_valid) simp_all
qed

lemma shuffled_bands:
  "band_perm (across_bands (fst (shuffle_array g [0, 1, 2] 3)))"
proof -
  have "length (fst (shuffle_array g [0, 1, 2 :: nat] 3)) = 3"
    "distinct (fst (shuffle_array g [0, 1, 2 :: nat] 3))"
    "set (fst (shuffle_array g [0, 1, 2 :: nat] 3)) = {0, 1, 2}"
    using shuffle_array_perm [of 3 "[0, 1, 2 :: nat]" g] by auto
  then show ?thesis by (rule across_bands_perm)
qed

lemma shuffle_bands_valid:
  assumes c: "is_complete b" and l: "legal b"
  shows "is_complete (fst (shuffle_bands g b)) \<and> legal (fst (shuffle_bands g b))"
proof (rule transform_valid [where b = b and q = "\<lambda>i. i" and f = "\<lambda>v. v"
      and p = "across_bands (fst (shuffle_array g [0, 1, 2] 3))"])
  show "is_complete b" by (rule c)
  show "legal b" by (rule l)
  show "band_perm (across_bands (fst (shuffle_array g [0, 1, 2] 3)))" by (rule shuffled_bands)
  show "band_perm (\<lambda>i. i)" by (rule band_perm_id)
  show "\<And>r c. r < N \<Longrightarrow> c < N \<Longrightarrow>
      grid (fst (shuffle_bands g b)) r c
        = grid b (across_bands (fst (shuffle_array g [0, 1, 2] 3)) r) c"
    by (rule shuffle_bands_grid)
qed simp_all

lemma shuffle_stacks_valid:
  assumes c: "is_complete b" and l: "legal b"
  shows "is_complete (fst (shuffle_stacks g b)) \<and> legal (fst (shuffle_stacks g b))"
proof (rule transform_valid [where b = b and p = "\<lambda>i. i" and f = "\<lambda>v. v"
      and q = "across_bands (fst (shuffle_array g [0, 1, 2] 3))"])
  show "is_complete b" by (rule c)
  show "legal b" by (rule l)
  show "band_perm (across_bands (fst (shuffle_array g [0, 1, 2] 3)))" by (rule shuffled_bands)
  show "band_perm (\<lambda>i. i)" by (rule band_perm_id)
  show "\<And>r c. r < N \<Longrightarrow> c < N \<Longrightarrow>
      grid (fst (shuffle_stacks g b)) r c
        = grid b r (across_bands (fst (shuffle_array g [0, 1, 2] 3)) c)"
    by (rule shuffle_stacks_grid)
qed simp_all

text \<open>
  Claim C2: for every random source and whatever the board held before, the board that
  \<open>generate_complete\<close> returns (the base pattern, then the digit relabelling, the row shuffles
  within bands, the column shuffles within stacks, the band shuffle and the stack shuffle)
  has a digit 1..9 in every cell and satisfies \<open>is_legal\<close>.
\<close>

theorem generate_complete_valid:
  "is_complete (fst (generate_complete g sol)) \<and> is_legal (fst (generate_complete g sol))"
proof -
  define b1 where "b1 = base_complete sol"
  define x2 where "x2 = permute_digits g b1"
  define x3 where "x3 = shuffle_rows_within_bands (snd x2) (fst x2)"
  define x4 where "x4 = shuffle_cols_within_stacks (snd x3) (fst x3)"
  define x5 where "x5 = shuffle_bands (snd x4) (fst x4)"
  define x6 where "x6 = shuffle_stacks (snd x5) (fst x5)"
  have eq: "generate_complete g sol = x6"
    unfolding generate_complete_def x6_def x5_def x4_def x3_def x2_def b1_def
    by (simp add: Let_def case_prod_beta)
  have "is_complete b1 \<and> legal b1" unfolding b1_def by (rule base_complete_valid)
  then have "is_complete (fst x2) \<and> legal (fst x2)"
    unfolding x2_def by (intro permute_digits_valid) simp_all
  then have "is_complete (fst x3) \<and> legal (fst x3)"
    unfolding x3_def by (intro shuffle_rows_within_bands_valid) simp_all
  then have "is_complete (fst x4) \<and> legal (fst x4)"
    unfolding x4_def by (intro shuffle_cols_within_stacks_valid) simp_all
  then have "is_complete (fst x5) \<and> legal (fst x5)"
    unfolding x5_def by (intro shuffle_bands_valid) simp_all
  then have v: "is_complete (fst x6) \<and> legal (fst x6)"
    unfolding x6_def by (intro shuffle_stacks_valid) simp_all
  then have "is_legal (fst x6)"
    using is_legal_iff [OF is_complete_wf, of "fst x6"] by blast
  with v show ?thesis unfolding eq by blast
qed

theorem generate_complete_valid_witness:
  "1 \<le> grid (fst (generate_complete (\<lambda>i. i) empty_board)) 0 0
   \<and> grid (fst (generate_complete (\<lambda>i. i) empty_board)) 0 0 \<le> 9
   \<and> grid (fst (generate_complete (\<lambda>i. i) empty_board)) 8 8 \<noteq> 0
   \<and> is_legal (fst (generate_complete (\<lambda>i. i) empty_board))"
proof -
  note g = generate_complete_valid [of "\<lambda>i. i" empty_board]
  have c: "is_complete (fst (generate_complete (\<lambda>i. i) empty_board))" using g by blast
  have "1 \<le> grid (fst (generate_complete (\<lambda>i. i) empty_board)) 0 0
      \<and> grid (fst (generate_complete (\<lambda>i. i) empty_board)) 0 0 \<le> 9"
    using c unfolding is_complete_def by simp
  moreover have "1 \<le> grid (fst (generate_complete (\<lambda>i. i) empty_board)) 8 8"
    using c unfolding is_complete_def by simp
  ultimately show ?thesis using g by simp
qed


section \<open>Carved puzzles have one solution\<close>

text \<open>The committed grid is the tentative grid.\<close>

lemma carve_cell_eq:
  "carve_cell puzzle clues r c =
     (if fst (count_solutions (fst (carve_test puzzle r c)) 2) = 1
      then (fst (carve_test puzzle r c), clues - snd (carve_test puzzle r c))
      else (puzzle, clues))"
proof -
  have "grid_upd (grid_upd puzzle r c 0) (8 - r) (8 - c) 0 = grid_upd puzzle r c 0"
    if "grid (grid_upd puzzle r c 0) (8 - r) (8 - c) = 0"
    using that by (rule grid_upd_same)
  then show ?thesis
    by (auto simp: carve_cell_def carve_test_def Let_def)
qed

lemma count_solutions_complete: "\<not> any_empty b \<Longrightarrow> fst (count_solutions b k) = 1"
  by (simp add: count_solutions_def count_rec.simps split: prod.splits)

lemma carve_loop_counts:
  "fst (count_solutions puzzle 2) = 1 \<Longrightarrow>
     fst (count_solutions (carve_loop cs target puzzle clues attempts idx) 2) = 1"
proof (induction cs target puzzle clues attempts idx rule: carve_loop.induct)
  case (1 cs target puzzle clues attempts idx)
  show ?case
  proof (cases "idx < N * N \<and> clues > target")
    case False
    then show ?thesis using "1.prems" by (subst carve_loop.simps) auto
  next
    case True
    define r where "r = cs ! idx div 9"
    define c where "c = cs ! idx mod 9"
    show ?thesis
    proof (cases "grid puzzle r c = 0")
      case e: True
      have "fst (count_solutions (carve_loop cs target puzzle clues attempts (idx + 1)) 2) = 1"
        using True e "1.prems"
        by (intro "1.IH"(1) [OF True refl r_def c_def]) simp_all
      then show ?thesis
        using True e by (subst carve_loop.simps) (simp add: r_def c_def Let_def)
    next
      case ne: False
      obtain p' clues' where cc: "carve_cell puzzle clues r c = (p', clues')"
        by (cases "carve_cell puzzle clues r c") auto
      have p': "fst (count_solutions p' 2) = 1"
        using cc "1.prems" unfolding carve_cell_eq by (auto split: if_splits)
      show ?thesis
      proof (cases "attempts + 1 > 20000")
        case True': True
        then show ?thesis
          using True ne cc p'
          by (subst carve_loop.simps) (simp add: r_def c_def Let_def)
      next
        case na: False
        have "fst (count_solutions (carve_loop cs target p' clues' (attempts + 1) (idx + 1)) 2) = 1"
          using p'
          by (intro "1.IH"(2) [OF True refl r_def c_def ne cc [symmetric] refl refl na]) 
        then show ?thesis
          using True ne cc na
          by (subst carve_loop.simps) (simp add: r_def c_def Let_def)
      qed
    qed
  qed
qed

lemma legal_clear: "legal b \<Longrightarrow> legal (grid_upd b r c 0)"
  unfolding legal_def sole_def by (simp add: grid_grid_upd)

lemma extends_clear: "extends p s \<Longrightarrow> r < N \<Longrightarrow> c < N \<Longrightarrow> extends (grid_upd p r c 0) s"
  unfolding extends_def by (auto simp: grid_grid_upd)

definition carve_inv :: "Board \<Rightarrow> Board \<Rightarrow> bool" where
  "carve_inv s p \<longleftrightarrow> wf_board p \<and> legal p \<and> extends p s"

lemma carve_inv_clear: "carve_inv s p \<Longrightarrow> r < N \<Longrightarrow> c < N \<Longrightarrow> carve_inv s (grid_upd p r c 0)"
  unfolding carve_inv_def by (simp add: wf_board_grid_upd legal_clear extends_clear)

lemma carve_test_inv:
  assumes "carve_inv s p" "r < N" "c < N"
  shows "carve_inv s (fst (carve_test p r c))"
proof -
  have "carve_inv s (grid_upd p r c 0)" using assms by (rule carve_inv_clear)
  moreover from this have "carve_inv s (grid_upd (grid_upd p r c 0) (8 - r) (8 - c) 0)"
    by (rule carve_inv_clear) simp_all
  ultimately show ?thesis by (simp add: carve_test_def Let_def)
qed

lemma carve_loop_inv:
  "\<forall>i<N * N. cs ! i < N * N \<Longrightarrow> carve_inv s puzzle \<Longrightarrow>
     carve_inv s (carve_loop cs target puzzle clues attempts idx)"
proof (induction cs target puzzle clues attempts idx rule: carve_loop.induct)
  case (1 cs target puzzle clues attempts idx)
  note cs = "1.prems"(1) and inv = "1.prems"(2)
  show ?case
  proof (cases "idx < N * N \<and> clues > target")
    case False
    then show ?thesis using inv by (subst carve_loop.simps) auto
  next
    case True
    define r where "r = cs ! idx div 9"
    define c where "c = cs ! idx mod 9"
    have "cs ! idx < 81" using cs True by simp
    then have rc: "r < N" "c < N" unfolding r_def c_def by simp_all
    show ?thesis
    proof (cases "grid puzzle r c = 0")
      case e: True
      have "carve_inv s (carve_loop cs target puzzle clues attempts (idx + 1))"
        using inv cs
        by (intro "1.IH"(1) [OF True refl r_def c_def e]) simp_all
      then show ?thesis
        using True e by (subst carve_loop.simps) (simp add: r_def c_def Let_def)
    next
      case ne: False
      obtain p' clues' where cc: "carve_cell puzzle clues r c = (p', clues')"
        by (cases "carve_cell puzzle clues r c") auto
      have p': "carve_inv s p'"
        using cc inv carve_test_inv [OF inv rc]
        unfolding carve_cell_eq by (auto split: if_splits)
      show ?thesis
      proof (cases "attempts + 1 > 20000")
        case True': True
        then show ?thesis
          using True ne cc p'
          by (subst carve_loop.simps) (simp add: r_def c_def Let_def)
      next
        case na: False
        have "carve_inv s (carve_loop cs target p' clues' (attempts + 1) (idx + 1))"
          using p' cs
          by (intro "1.IH"(2) [OF True refl r_def c_def ne cc [symmetric] refl refl na]) simp_all
        then show ?thesis
          using True ne cc na
          by (subst carve_loop.simps) (simp add: r_def c_def Let_def)
      qed
    qed
  qed
qed

lemma extends_refl: "extends b b"
  by (simp add: extends_def)

lemma make_puzzle_inv:
  assumes c: "is_complete solution" and l: "is_legal solution"
  shows "fst (count_solutions (fst (make_puzzle g solution d)) 2) = 1"
    and "carve_inv solution (fst (make_puzzle g solution d))"
proof -
  let ?cs = "fst (shuffle_array g [0..<N * N] (N * N))"
  have mp: "fst (make_puzzle g solution d) = carve_loop ?cs (target_clues d) solution 81 0 0"
    by (simp add: make_puzzle_def Let_def split: prod.splits)
  have "\<not> any_empty solution"
    using c unfolding any_empty_iff is_complete_def by fastforce
  then have "fst (count_solutions solution 2) = 1" by (rule count_solutions_complete)
  then show "fst (count_solutions (fst (make_puzzle g solution d)) 2) = 1"
    unfolding mp by (rule carve_loop_counts)
  have len: "length ?cs = 81" and st: "set ?cs = {0..<81}"
    using shuffle_array_perm(1,2) [of 81 "[0..<N * N]" g] by simp_all
  have cs: "\<forall>i<N * N. ?cs ! i < N * N"
  proof (intro allI impI)
    fix i assume "i < N * N"
    then have "?cs ! i \<in> set ?cs" using len by simp
    then show "?cs ! i < N * N" unfolding st by simp
  qed
  have "carve_inv solution solution"
    unfolding carve_inv_def
    using is_complete_wf [OF c] l is_legal_iff [OF is_complete_wf [OF c]] extends_refl by simp
  then have "carve_inv solution (carve_loop ?cs (target_clues d) solution 81 0 0)"
    using cs by (intro carve_loop_inv) simp_all
  then show "carve_inv solution (fst (make_puzzle g solution d))"
    unfolding mp .
qed

text \<open>
  Claim C1: for every complete legal solution board, every difficulty and every random
  source, \<open>count_solutions\<close> with limit 2 returns 1 on the puzzle that \<open>make_puzzle\<close> returns,
  and the solution is the only completion of that puzzle. The loop body on a cell that
  holds a digit commits the tentative grid, and takes the number of cells cleared in it off
  the clue counter, exactly when \<open>count_solutions\<close> with limit 2 returns 1 on the tentative
  grid; otherwise it leaves the puzzle and the counter as they were.
\<close>

theorem make_puzzle_unique:
  assumes "is_complete solution" and "is_legal solution"
  shows "fst (count_solutions (fst (make_puzzle g solution d)) 2) = 1
       \<and> {s. completion (fst (make_puzzle g solution d)) s} = {solution}
       \<and> carve_cell p clues r c =
           (if fst (count_solutions (fst (carve_test p r c)) 2) = 1
            then (fst (carve_test p r c), clues - snd (carve_test p r c))
            else (p, clues))"
proof -
  let ?p = "fst (make_puzzle g solution d)"
  have one: "fst (count_solutions ?p 2) = 1" using assms by (rule make_puzzle_inv(1))
  have inv: "carve_inv solution ?p" using assms by (rule make_puzzle_inv(2))
  then have wf: "wf_board ?p" and ext: "extends ?p solution" and lg: "legal ?p"
    by (simp_all add: carve_inv_def)
  have il: "is_legal ?p" using lg is_legal_iff [OF wf] by simp
  have "fst (count_solutions ?p 2) = min 2 (int (card {s. completion ?p s}))"
    using wf il by (rule count_solutions_min) simp
  then have card: "card {s. completion ?p s} = 1" using one by (simp add: min_def split: if_splits)
  have "completion ?p solution" using assms ext by (simp add: completion_def)
  then have "solution \<in> {s. completion ?p s}" by simp
  moreover obtain x where "{s. completion ?p s} = {x}" using card by (auto simp: card_1_singleton_iff)
  ultimately have "{s. completion ?p s} = {solution}" by auto
  with one show ?thesis by (simp add: carve_cell_eq)
qed

theorem make_puzzle_unique_witness:
  "is_complete solved_board \<and> is_legal solved_board
   \<and> fst (count_solutions (fst (make_puzzle (\<lambda>i. i) solved_board DIFF_HARD)) 2) = 1
   \<and> completion (fst (make_puzzle (\<lambda>i. i) solved_board DIFF_HARD)) solved_board"
proof -
  note m = make_puzzle_unique [OF solved_board_complete solved_board_legal,
      of "\<lambda>i. i" DIFF_HARD solved_board 81 0 0]
  from m have "solved_board \<in> {s. completion (fst (make_puzzle (\<lambda>i. i) solved_board DIFF_HARD)) s}"
    by simp
  then have "completion (fst (make_puzzle (\<lambda>i. i) solved_board DIFF_HARD)) solved_board"
    by simp
  then show ?thesis using m solved_board_complete solved_board_legal by simp
qed

end
